theory Spec2Isabelle
  imports Main "HOL-Library.Word" "HOL-Library.Sublist"
begin

section \<open>Common types\<close>

type_synonym byte = "8 word"
type_synonym bytes = "byte list"

text \<open>
  Go's \<^verbatim>\<open>error\<close> values.  \<open>ErrorsNew\<close> is \<^verbatim>\<open>errors.New\<close>, the wrapping
  constructors are the \<^verbatim>\<open>fmt.Errorf\<close> calls of \<^verbatim>\<open>lib/babe/build.go\<close>, and
  \<open>External\<close> is an error handed back by a callee whose code is outside the
  files at hand (runtime, codec, database, keystore).
\<close>

datatype apply_error =
    DispatchOutcomeError string
  | TransactionValidityError string
  | OtherApplyError string

datatype err =
    ErrorsNew string
  | ErrNotAuthorized
  | External string
  | CannotBuildInherents err
  | CannotFinaliseBlock err
  | ErrorApplyingInherent "apply_error option"
  | ChildTrieDoesNotExist bytes bytes

section \<open>Command line: \<^verbatim>\<open>import-state\<close> and the exit code (cmd/gossamer/main.go)\<close>

text \<open>
  A \<^verbatim>\<open>cli.Context\<close> is modelled by the flags that were supplied on the command
  line.  \<^verbatim>\<open>ctx.String\<close> and \<^verbatim>\<open>ctx.Int\<close> give the zero value (the empty string, 0)
  for a flag that was not supplied.  Go's \<^verbatim>\<open>int\<close> is a 64-bit machine integer, and
  \<^verbatim>\<open>uint64(firstSlot)\<close> keeps its bits.
\<close>

record cli_ctx =
  string_flags :: "string \<rightharpoonup> string"
  int_flags :: "string \<rightharpoonup> 64 word"

definition ctx_String :: "cli_ctx \<Rightarrow> string \<Rightarrow> string" where
  "ctx_String ctx name = (case string_flags ctx name of None \<Rightarrow> [] | Some s \<Rightarrow> s)"

definition ctx_Int :: "cli_ctx \<Rightarrow> string \<Rightarrow> 64 word" where
  "ctx_Int ctx name = (case int_flags ctx name of None \<Rightarrow> 0 | Some i \<Rightarrow> i)"

text \<open>
  The flag declarations (\<^verbatim>\<open>StateFlag\<close>, \<^verbatim>\<open>HeaderFlag\<close>, \<^verbatim>\<open>FirstSlotFlag\<close>) are not in
  the files at hand; their names are the ones the command's usage text gives:
  \<^verbatim>\<open>gossamer import-state --state state.json --header header.json --first-slot ...\<close>
\<close>

definition StateFlag_Name :: string where "StateFlag_Name = ''state''"
definition HeaderFlag_Name :: string where "HeaderFlag_Name = ''header''"
definition FirstSlotFlag_Name :: string where "FirstSlotFlag_Name = ''first-slot''"

text \<open>
  \<^verbatim>\<open>importStateAction\<close>.  Its callees \<^verbatim>\<open>createImportStateConfig\<close>, \<^verbatim>\<open>utils.ExpandDir\<close>
  and \<^verbatim>\<open>dot.ImportState\<close> are parameters; \<open>basePath\<close> reads \<^verbatim>\<open>cfg.Global.BasePath\<close>.
  The result is the returned error, \<open>None\<close> for \<^verbatim>\<open>nil\<close>.
\<close>

definition importStateAction ::
  "(cli_ctx \<Rightarrow> err + 'cfg) \<Rightarrow> ('cfg \<Rightarrow> string) \<Rightarrow> (string \<Rightarrow> string) \<Rightarrow>
   (string \<Rightarrow> string \<Rightarrow> string \<Rightarrow> 64 word \<Rightarrow> err option) \<Rightarrow> cli_ctx \<Rightarrow> err option" where
  "importStateAction createImportStateConfig basePath ExpandDir ImportState ctx =
     (let stateFP = ctx_String ctx StateFlag_Name in
      if stateFP = [] then Some (ErrorsNew ''must provide argument to --state'')
      else let headerFP = ctx_String ctx HeaderFlag_Name in
      if headerFP = [] then Some (ErrorsNew ''must provide argument to --header'')
      else let firstSlot = ctx_Int ctx FirstSlotFlag_Name in
      if firstSlot = 0 then Some (ErrorsNew ''must provide argument to --first-slot'')
      else (case createImportStateConfig ctx of
              Inl e \<Rightarrow> Some e
            | Inr cfg \<Rightarrow> ImportState (ExpandDir (basePath cfg)) stateFP headerFP firstSlot))"

text \<open>
  \<^verbatim>\<open>main\<close>: the argument is what \<^verbatim>\<open>app.Run(os.Args)\<close> returned.  An error is printed
  to standard error and the process exits with code 1; otherwise \<^verbatim>\<open>main\<close> returns and
  the process exits with code 0.
\<close>

record process_end =
  stderr :: "err list"
  exit_code :: nat

definition main :: "err option \<Rightarrow> process_end" where
  "main run_result =
     (case run_result of
        Some e \<Rightarrow> \<lparr>stderr = [e], exit_code = 1\<rparr>
      | None \<Rightarrow> \<lparr>stderr = [], exit_code = 0\<rparr>)"

text \<open>
  \<^verbatim>\<open>app.Run\<close> belongs to the command-line library.  For a command whose flags parse,
  it calls the command's action and returns the action's error unchanged (the errors
  made here carry no exit code of their own).
\<close>

definition run_command :: "(cli_ctx \<Rightarrow> err option) \<Rightarrow> cli_ctx \<Rightarrow> process_end" where
  "run_command action ctx = main (action ctx)"

section \<open>Notification channels (dot/state/block_notify.go)\<close>

text \<open>
  \<^verbatim>\<open>bs.imported\<close> and \<^verbatim>\<open>bs.finalised\<close> are Go maps from a byte to a channel.  A
  channel value may be \<^verbatim>\<open>nil\<close>, so a stored value is an option, and
  \<^verbatim>\<open>bs.imported[id] == nil\<close> holds for a missing key as well as for a stored \<^verbatim>\<open>nil\<close>.
  \<^verbatim>\<open>len(m)\<close> is the number of keys.  Both maps are taken to be initialised, as the
  constructor of the block state leaves them.
\<close>

record ('c, 'f) BlockState =
  imported :: "byte \<rightharpoonup> 'c option"
  finalised :: "byte \<rightharpoonup> 'f option"

definition len_map :: "(byte \<rightharpoonup> 'a) \<Rightarrow> nat" where
  "len_map m = card (dom m)"

definition is_nil_at :: "(byte \<rightharpoonup> 'a option) \<Rightarrow> byte \<Rightarrow> bool" where
  "is_nil_at m i = (case m i of None \<Rightarrow> True | Some None \<Rightarrow> True | Some (Some _) \<Rightarrow> False)"

text \<open>
  \<^verbatim>\<open>generateID\<close> is \<^verbatim>\<open>byte(rand.Intn(256))\<close>.  The random source is a sequence
  \<open>rnd\<close> of draws, the \<open>n\<close>-th call reading \<open>rnd n\<close>; \<^verbatim>\<open>Intn(256)\<close> lies in
  \<open>[0, 256)\<close>.
\<close>

definition generateID :: "(nat \<Rightarrow> nat) \<Rightarrow> nat \<Rightarrow> byte" where
  "generateID rnd n = of_nat (rnd n mod 256)"

text \<open>
  The loop \<^verbatim>\<open>for { id = generateID(); if m[id] == nil { break } }\<close>.  It need not end
  (the draws may miss every free ID for ever), so not returning is the value \<open>None\<close>.
  The result is the ID and the number of draws made so far.
\<close>

partial_function (option) pick_free_id ::
  "(nat \<Rightarrow> nat) \<Rightarrow> (byte \<rightharpoonup> 'a option) \<Rightarrow> nat \<Rightarrow> (byte \<times> nat) option" where
  "pick_free_id rnd m n =
     (if is_nil_at m (generateID rnd n) then Some (generateID rnd n, Suc n)
      else pick_free_id rnd m (Suc n))"

text \<open>
  The body shared by the two registration functions, on the map of one kind:
  the error, or the ID together with the updated map; and the number of draws.
\<close>

definition register_channel ::
  "(nat \<Rightarrow> nat) \<Rightarrow> (byte \<rightharpoonup> 'a option) \<Rightarrow> 'a option \<Rightarrow> nat \<Rightarrow>
   ((err + byte \<times> (byte \<rightharpoonup> 'a option)) \<times> nat) option" where
  "register_channel rnd m ch n =
     (if len_map m = 256 then Some (Inl (ErrorsNew ''channel limit reached''), n)
      else (case pick_free_id rnd m n of
              None \<Rightarrow> None
            | Some (i, n') \<Rightarrow> Some (Inr (i, m(i \<mapsto> ch)), n')))"

definition RegisterImportedChannel ::
  "(nat \<Rightarrow> nat) \<Rightarrow> 'c option \<Rightarrow> ('c, 'f) BlockState \<times> nat \<Rightarrow>
   ((err + byte) \<times> ('c, 'f) BlockState \<times> nat) option" where
  "RegisterImportedChannel rnd ch = (\<lambda>(bs, n).
     (case register_channel rnd (imported bs) ch n of
        None \<Rightarrow> None
      | Some (Inl e, n') \<Rightarrow> Some (Inl e, bs, n')
      | Some (Inr (i, m'), n') \<Rightarrow> Some (Inr i, bs\<lparr>imported := m'\<rparr>, n')))"

definition RegisterFinalizedChannel ::
  "(nat \<Rightarrow> nat) \<Rightarrow> 'f option \<Rightarrow> ('c, 'f) BlockState \<times> nat \<Rightarrow>
   ((err + byte) \<times> ('c, 'f) BlockState \<times> nat) option" where
  "RegisterFinalizedChannel rnd ch = (\<lambda>(bs, n).
     (case register_channel rnd (finalised bs) ch n of
        None \<Rightarrow> None
      | Some (Inl e, n') \<Rightarrow> Some (Inl e, bs, n')
      | Some (Inr (i, m'), n') \<Rightarrow> Some (Inr i, bs\<lparr>finalised := m'\<rparr>, n')))"

definition UnregisterImportedChannel :: "byte \<Rightarrow> ('c, 'f) BlockState \<Rightarrow> ('c, 'f) BlockState" where
  "UnregisterImportedChannel i bs = bs\<lparr>imported := (imported bs)(i := None)\<rparr>"

definition UnregisterFinalizedChannel :: "byte \<Rightarrow> ('c, 'f) BlockState \<Rightarrow> ('c, 'f) BlockState" where
  "UnregisterFinalizedChannel i bs = bs\<lparr>finalised := (finalised bs)(i := None)\<rparr>"

section \<open>Block production (lib/babe/build.go)\<close>

subsection \<open>Data\<close>

text \<open>
  \<^verbatim>\<open>common.Hash\<close> is \<^verbatim>\<open>[32]byte\<close>: a byte list of length 32.
\<close>

typedef hash32 = "{bs :: byte list. length bs = 32}"
  by (rule exI[of _ "replicate 32 0"]) simp

text \<open>
  The digest items named by the code (\<^verbatim>\<open>types.PreRuntimeDigest\<close>, \<^verbatim>\<open>types.ConsensusDigest\<close>,
  \<^verbatim>\<open>types.SealDigest\<close>), each with its \<^verbatim>\<open>ConsensusEngineID\<close> and \<^verbatim>\<open>Data\<close>, and any other
  item.  \<^verbatim>\<open>big.Int\<close> is \<open>int\<close>; \<^verbatim>\<open>types.Body\<close> is a byte slice.
\<close>

datatype digest_item =
    PreRuntimeDigest bytes bytes
  | ConsensusDigest bytes bytes
  | SealDigest bytes bytes
  | OtherDigest bytes

record Header =
  ParentHash :: hash32
  Number :: int
  StateRoot :: hash32
  ExtrinsicsRoot :: hash32
  Digest :: "digest_item list"

record Block =
  Block_Header :: Header
  Block_Body :: bytes

text \<open>
  A slot: \<^verbatim>\<open>start\<close> is a \<^verbatim>\<open>time.Time\<close> and \<^verbatim>\<open>duration\<close> a \<^verbatim>\<open>time.Duration\<close>, both
  counted in nanoseconds.
\<close>

record Slot =
  slot_start :: int
  slot_duration :: int
  slot_number :: "64 word"

text \<open>
  \<^verbatim>\<open>transaction.ValidTransaction\<close>: the \<^verbatim>\<open>Extrinsic\<close> byte slice may be \<^verbatim>\<open>nil\<close>; the
  validity data is not looked at by the builder.
\<close>

record ValidTransaction =
  Extrinsic :: "bytes option"
  Validity :: nat

record BabePrimaryPreDigest =
  pd_authorityIndex :: "64 word"
  pd_slotNumber :: "64 word"
  pd_vrfOutput :: bytes
  pd_vrfProof :: bytes

text \<open>
  What changes while a block is built: the state of the runtime instance, the
  transaction queue (in the order in which \<^verbatim>\<open>Pop\<close> hands the transactions out; \<^verbatim>\<open>Pop\<close>
  on the empty queue gives \<^verbatim>\<open>nil\<close>), and the number of times the wall clock has been
  read.
\<close>

record 'rt world =
  rt_state :: 'rt
  queue :: "ValidTransaction list"
  clock_reads :: nat

text \<open>
  The callees of the builder whose code is not in \<^verbatim>\<open>build.go\<close>, and the fields of the
  service it reads.  A runtime call takes the runtime state and returns the new one
  with its result.  \<open>wall_clock n\<close> is the \<open>n\<close>-th reading of the clock, in
  nanoseconds since the epoch.
\<close>

record ('rt, 'idata) env =
  wall_clock :: "nat \<Rightarrow> int"
  slotToProof :: "64 word \<rightharpoonup> bytes \<times> bytes"
  authorityIndex :: "64 word"
  BabeEngineID :: bytes
  encodeBabeHeader :: "BabePrimaryPreDigest \<Rightarrow> bytes"
  headerHash :: "Header \<Rightarrow> hash32"
  NewHeader :: "hash32 \<Rightarrow> hash32 \<Rightarrow> hash32 \<Rightarrow> int \<Rightarrow> digest_item list \<Rightarrow> err + Header"
  InitializeBlock :: "Header \<Rightarrow> 'rt \<Rightarrow> err option \<times> 'rt"
  InherentExtrinsics :: "bytes \<Rightarrow> 'rt \<Rightarrow> (err + bytes) \<times> 'rt"
  ApplyExtrinsic :: "bytes \<Rightarrow> 'rt \<Rightarrow> (err + bytes) \<times> 'rt"
  FinalizeBlock :: "'rt \<Rightarrow> (err + Header) \<times> 'rt"
  determineErr :: "bytes \<Rightarrow> apply_error option"
  GetFinalizedHeader :: "64 word \<Rightarrow> 64 word \<Rightarrow> err + Header"
  NewInherentsData :: 'idata
  Timstap0 :: bytes
  Babeslot :: bytes
  Finalnum :: bytes
  SetInt64Inherent :: "bytes \<Rightarrow> 64 word \<Rightarrow> 'idata \<Rightarrow> err + 'idata"
  SetBigIntInherent :: "bytes \<Rightarrow> int \<Rightarrow> 'idata \<Rightarrow> err + 'idata"
  idataEncode :: "'idata \<Rightarrow> err + bytes"
  scaleDecodeByteArrays :: "bytes \<Rightarrow> err + bytes list"
  scaleEncodeBytes :: "bytes \<Rightarrow> err + bytes"
  scaleDecodeBytes :: "bytes \<Rightarrow> err + bytes"
  headerEncode :: "Header \<Rightarrow> err + bytes"
  Blake2bHash :: "bytes \<Rightarrow> err + hash32"
  keypairSign :: "bytes \<Rightarrow> err + bytes"
  NewBodyFromExtrinsics :: "bytes list \<Rightarrow> err + bytes"
  queuePush :: "ValidTransaction \<Rightarrow> ValidTransaction list \<Rightarrow> ValidTransaction list"

subsection \<open>Seal and pre-digest\<close>

definition buildBlockSeal :: "('rt, 'idata) env \<Rightarrow> Header \<Rightarrow> err + digest_item" where
  "buildBlockSeal e header =
     (case headerEncode e header of
        Inl er \<Rightarrow> Inl er
      | Inr encHeader \<Rightarrow>
          (case Blake2bHash e encHeader of
             Inl er \<Rightarrow> Inl er
           | Inr hash \<Rightarrow>
               (case keypairSign e (Rep_hash32 hash) of
                  Inl er \<Rightarrow> Inl er
                | Inr sig \<Rightarrow> Inr (SealDigest (BabeEngineID e) sig))))"

definition buildBlockBABEPrimaryPreDigest ::
  "('rt, 'idata) env \<Rightarrow> Slot \<Rightarrow> err + BabePrimaryPreDigest" where
  "buildBlockBABEPrimaryPreDigest e slot =
     (case slotToProof e (slot_number slot) of
        None \<Rightarrow> Inl ErrNotAuthorized
      | Some (output, prf) \<Rightarrow>
          Inr \<lparr>pd_authorityIndex = authorityIndex e, pd_slotNumber = slot_number slot,
                pd_vrfOutput = output, pd_vrfProof = prf\<rparr>)"

definition buildBlockPreDigest :: "('rt, 'idata) env \<Rightarrow> Slot \<Rightarrow> err + digest_item" where
  "buildBlockPreDigest e slot =
     (case buildBlockBABEPrimaryPreDigest e slot of
        Inl er \<Rightarrow> Inl er
      | Inr babeHeader \<Rightarrow> Inr (PreRuntimeDigest (BabeEngineID e) (encodeBabeHeader e babeHeader)))"

subsection \<open>Extrinsics from the queue\<close>

text \<open>
  \<^verbatim>\<open>hasSlotEnded\<close> reads the clock: \<^verbatim>\<open>time.Since(slotEnd) >= 0\<close> with
  \<^verbatim>\<open>slotEnd = slot.start.Add(slot.duration)\<close>.
\<close>

definition hasSlotEnded :: "Slot \<Rightarrow> int \<Rightarrow> bool" where
  "hasSlotEnded slot now = (now - (slot_start slot + slot_duration slot) \<ge> 0)"

text \<open>
  Whether the error that \<^verbatim>\<open>determineErr\<close> made of the runtime's answer keeps the
  extrinsic out of the block: \<^verbatim>\<open>nil\<close> and a \<^verbatim>\<open>*DispatchOutcomeError\<close> do not.
\<close>

fun is_DispatchOutcomeError :: "apply_error \<Rightarrow> bool" where
  "is_DispatchOutcomeError (DispatchOutcomeError _) = True"
| "is_DispatchOutcomeError _ = False"

text \<open>
  The loop of \<^verbatim>\<open>buildBlockExtrinsics\<close>, on the queue, the runtime state, the number of
  clock readings and the transactions included so far.  Each round reads the clock,
  then pops.  It returns the included transactions and what is left of the three.
\<close>

fun drain_queue ::
  "('rt, 'idata) env \<Rightarrow> Slot \<Rightarrow> ValidTransaction list \<Rightarrow> 'rt \<Rightarrow> nat \<Rightarrow> ValidTransaction list \<Rightarrow>
   ValidTransaction list \<times> ValidTransaction list \<times> 'rt \<times> nat" where
  "drain_queue e slot [] rt n included =
     (if hasSlotEnded slot (wall_clock e n) then (included, [], rt, Suc n)
      else (included, [], rt, Suc n))"
| "drain_queue e slot (txn # rest) rt n included =
     (if hasSlotEnded slot (wall_clock e n) then (included, txn # rest, rt, Suc n)
      else (case Extrinsic txn of
              None \<Rightarrow> drain_queue e slot rest rt (Suc n) included
            | Some extrinsic \<Rightarrow>
                (case ApplyExtrinsic e extrinsic rt of
                   (Inl er, rt') \<Rightarrow> drain_queue e slot rest rt' (Suc n) included
                 | (Inr ret, rt') \<Rightarrow>
                     (case determineErr e ret of
                        None \<Rightarrow> drain_queue e slot rest rt' (Suc n) (included @ [txn])
                      | Some er \<Rightarrow>
                          if is_DispatchOutcomeError er
                          then drain_queue e slot rest rt' (Suc n) (included @ [txn])
                          else drain_queue e slot rest rt' (Suc n) included))))"

definition buildBlockExtrinsics ::
  "('rt, 'idata) env \<Rightarrow> Slot \<Rightarrow> 'rt world \<Rightarrow> ValidTransaction list \<times> 'rt world" where
  "buildBlockExtrinsics e slot w =
     (case drain_queue e slot (queue w) (rt_state w) (clock_reads w) [] of
        (included, q, rt, n) \<Rightarrow> (included, \<lparr>rt_state = rt, queue = q, clock_reads = n\<rparr>))"

subsection \<open>Inherents\<close>

text \<open>
  The loop that applies each inherent extrinsic; it stops at the first failure.
\<close>

fun apply_inherents :: "('rt, 'idata) env \<Rightarrow> bytes list \<Rightarrow> 'rt \<Rightarrow> err option \<times> 'rt" where
  "apply_inherents e [] rt = (None, rt)"
| "apply_inherents e (ext # exts) rt =
     (case scaleEncodeBytes e ext of
        Inl er \<Rightarrow> (Some er, rt)
      | Inr inp \<Rightarrow>
          (case ApplyExtrinsic e inp rt of
             (Inl er, rt') \<Rightarrow> (Some er, rt')
           | (Inr ret, rt') \<Rightarrow>
               if ret \<noteq> [0, 0] then (Some (ErrorApplyingInherent (determineErr e ret)), rt')
               else apply_inherents e exts rt'))"

text \<open>
  The part of \<^verbatim>\<open>buildBlockInherents\<close> before the loop: the inherent data
  (\<^verbatim>\<open>time.Now().Unix()\<close> is the clock reading in seconds), its encoding, the call of
  \<^verbatim>\<open>BlockBuilder_inherent_extrinsics\<close> and the decoding of its answer.
\<close>

definition inherent_data :: "('rt, 'idata) env \<Rightarrow> Slot \<Rightarrow> int \<Rightarrow> err + bytes" where
  "inherent_data e slot now =
     (case SetInt64Inherent e (Timstap0 e) (word_of_int (now div 1000000000)) (NewInherentsData e) of
        Inl er \<Rightarrow> Inl er
      | Inr idata1 \<Rightarrow>
     (case SetInt64Inherent e (Babeslot e) (slot_number slot) idata1 of
        Inl er \<Rightarrow> Inl er
      | Inr idata2 \<Rightarrow>
     (case GetFinalizedHeader e 0 0 of
        Inl er \<Rightarrow> Inl er
      | Inr fin \<Rightarrow>
     (case SetBigIntInherent e (Finalnum e) (Number fin) idata2 of
        Inl er \<Rightarrow> Inl er
      | Inr idata3 \<Rightarrow> idataEncode e idata3))))"

definition inherent_extrinsics ::
  "('rt, 'idata) env \<Rightarrow> Slot \<Rightarrow> 'rt world \<Rightarrow> (err + bytes list) \<times> 'rt world" where
  "inherent_extrinsics e slot w =
     (let w1 = w\<lparr>clock_reads := Suc (clock_reads w)\<rparr> in
      case inherent_data e slot (wall_clock e (clock_reads w)) of
        Inl er \<Rightarrow> (Inl er, w1)
      | Inr ienc \<Rightarrow>
          (case InherentExtrinsics e ienc (rt_state w1) of
             (Inl er, rt') \<Rightarrow> (Inl er, w1\<lparr>rt_state := rt'\<rparr>)
           | (Inr inherentExts, rt') \<Rightarrow>
               (scaleDecodeByteArrays e inherentExts, w1\<lparr>rt_state := rt'\<rparr>)))"

definition buildBlockInherents ::
  "('rt, 'idata) env \<Rightarrow> Slot \<Rightarrow> 'rt world \<Rightarrow> (err + bytes list) \<times> 'rt world" where
  "buildBlockInherents e slot w =
     (case inherent_extrinsics e slot w of
        (Inl er, w1) \<Rightarrow> (Inl er, w1)
      | (Inr exts, w1) \<Rightarrow>
          (case apply_inherents e exts (rt_state w1) of
             (Some er, rt') \<Rightarrow> (Inl er, w1\<lparr>rt_state := rt'\<rparr>)
           | (None, rt') \<Rightarrow> (Inr exts, w1\<lparr>rt_state := rt'\<rparr>)))"

subsection \<open>The block\<close>

definition zero_hash :: hash32 where
  "zero_hash = Abs_hash32 (replicate 32 0)"

text \<open>
  \<^verbatim>\<open>addToQueue\<close> pushes each transaction back; a failed push is only logged.
\<close>

definition addToQueue ::
  "('rt, 'idata) env \<Rightarrow> ValidTransaction list \<Rightarrow> ValidTransaction list \<Rightarrow> ValidTransaction list" where
  "addToQueue e txs q = foldl (\<lambda>q t. queuePush e t q) q txs"

fun decode_extrinsics :: "('rt, 'idata) env \<Rightarrow> ValidTransaction list \<Rightarrow> err + bytes list" where
  "decode_extrinsics e [] = Inr []"
| "decode_extrinsics e (tx # txs) =
     (case scaleDecodeBytes e (case Extrinsic tx of None \<Rightarrow> [] | Some x \<Rightarrow> x) of
        Inl er \<Rightarrow> Inl er
      | Inr decExt \<Rightarrow>
          (case decode_extrinsics e txs of
             Inl er \<Rightarrow> Inl er
           | Inr ds \<Rightarrow> Inr (decExt # ds)))"

definition extrinsicsToBody ::
  "('rt, 'idata) env \<Rightarrow> bytes list \<Rightarrow> ValidTransaction list \<Rightarrow> err + bytes" where
  "extrinsicsToBody e inherents txs =
     (case decode_extrinsics e txs of
        Inl er \<Rightarrow> Inl er
      | Inr ds \<Rightarrow> NewBodyFromExtrinsics e (inherents @ ds))"

text \<open>
  \<^verbatim>\<open>buildBlock\<close>.  After \<^verbatim>\<open>FinalizeBlock\<close> has returned the header, its parent hash and
  number are set, the pre-digest is appended to its digest, the seal is made from that
  header, and the seal is appended.
\<close>

definition seal_header ::
  "('rt, 'idata) env \<Rightarrow> Header \<Rightarrow> digest_item \<Rightarrow> Header \<Rightarrow> err + Header" where
  "seal_header e parent preDigest finalised_header =
     (let header = finalised_header\<lparr>ParentHash := headerHash e parent,
                                     Number := Number parent + 1\<rparr>;
          header = header\<lparr>Digest := Digest header @ [preDigest]\<rparr>
      in case buildBlockSeal e header of
           Inl er \<Rightarrow> Inl er
         | Inr seal \<Rightarrow> Inr (header\<lparr>Digest := Digest header @ [seal]\<rparr>))"

definition buildBlock ::
  "('rt, 'idata) env \<Rightarrow> Header \<Rightarrow> Slot \<Rightarrow> 'rt world \<Rightarrow> (err + Block) \<times> 'rt world" where
  "buildBlock e parent slot w =
     (case buildBlockPreDigest e slot of
        Inl er \<Rightarrow> (Inl er, w)
      | Inr preDigest \<Rightarrow>
     (case NewHeader e (headerHash e parent) zero_hash zero_hash (Number parent + 1) [] of
        Inl er \<Rightarrow> (Inl er, w)
      | Inr header \<Rightarrow>
     (case InitializeBlock e header (rt_state w) of
        (Some er, rt1) \<Rightarrow> (Inl er, w\<lparr>rt_state := rt1\<rparr>)
      | (None, rt1) \<Rightarrow>
     (case buildBlockInherents e slot (w\<lparr>rt_state := rt1\<rparr>) of
        (Inl er, w2) \<Rightarrow> (Inl (CannotBuildInherents er), w2)
      | (Inr inherents, w2) \<Rightarrow>
     (case buildBlockExtrinsics e slot w2 of
        (included, w3) \<Rightarrow>
     (case FinalizeBlock e (rt_state w3) of
        (Inl er, rt4) \<Rightarrow>
          (Inl (CannotFinaliseBlock er),
           w3\<lparr>rt_state := rt4, queue := addToQueue e included (queue w3)\<rparr>)
      | (Inr finalised_header, rt4) \<Rightarrow>
     (case seal_header e parent preDigest finalised_header of
        Inl er \<Rightarrow> (Inl er, w3\<lparr>rt_state := rt4\<rparr>)
      | Inr header \<Rightarrow>
     (case extrinsicsToBody e inherents included of
        Inl er \<Rightarrow> (Inl er, w3\<lparr>rt_state := rt4\<rparr>)
      | Inr body \<Rightarrow>
          (Inr \<lparr>Block_Header = header, Block_Body = body\<rparr>, w3\<lparr>rt_state := rt4\<rparr>)))))))))"

subsection \<open>A small environment to run the builder on\<close>

text \<open>
  The runtime state counts the extrinsics applied.  \<^verbatim>\<open>ApplyExtrinsic\<close> answers with the
  bytes it was given, and \<^verbatim>\<open>determineErr\<close> reads them: \<open>[0, 0]\<close> is success, a
  leading 1 a dispatch-outcome error, anything else an invalid transaction.  The clock
  advances by two nanoseconds per reading.
\<close>

definition demo_header :: Header where
  "demo_header = \<lparr>ParentHash = zero_hash, Number = 0, StateRoot = zero_hash,
                   ExtrinsicsRoot = zero_hash, Digest = [ConsensusDigest [1] [2]]\<rparr>"

definition demo_determineErr :: "bytes \<Rightarrow> apply_error option" where
  "demo_determineErr ret =
     (if ret = [0, 0] then None
      else if take 1 ret = [1] then Some (DispatchOutcomeError ''dispatch'')
      else Some (TransactionValidityError ''invalid''))"

definition demo_env :: "(nat, unit) env" where
  "demo_env = \<lparr>
     wall_clock = (\<lambda>n. 2 * int n),
     slotToProof = [1 \<mapsto> ([1], [2])],
     authorityIndex = 0,
     BabeEngineID = [66, 65, 66, 69],
     encodeBabeHeader = (\<lambda>d. pd_vrfOutput d @ pd_vrfProof d),
     headerHash = (\<lambda>_. zero_hash),
     NewHeader = (\<lambda>p s x n d. Inr \<lparr>ParentHash = p, Number = n, StateRoot = s,
                                   ExtrinsicsRoot = x, Digest = d\<rparr>),
     InitializeBlock = (\<lambda>h rt. (None, rt)),
     InherentExtrinsics = (\<lambda>b rt. (Inr b, rt)),
     ApplyExtrinsic = (\<lambda>b rt. (Inr b, Suc rt)),
     FinalizeBlock = (\<lambda>rt. (Inr demo_header, rt)),
     determineErr = demo_determineErr,
     GetFinalizedHeader = (\<lambda>_ _. Inr demo_header),
     NewInherentsData = (),
     Timstap0 = [1],
     Babeslot = [2],
     Finalnum = [3],
     SetInt64Inherent = (\<lambda>k v d. Inr d),
     SetBigIntInherent = (\<lambda>k v d. Inr d),
     idataEncode = (\<lambda>d. Inr []),
     scaleDecodeByteArrays = (\<lambda>b. Inr [[0, 0]]),
     scaleEncodeBytes = Inr,
     scaleDecodeBytes = Inr,
     headerEncode = (\<lambda>h. Inr [of_nat (length (Digest h))]),
     Blake2bHash = (\<lambda>b. Inr zero_hash),
     keypairSign = Inr,
     NewBodyFromExtrinsics = (\<lambda>xs. Inr (concat xs)),
     queuePush = (\<lambda>t q. q @ [t])\<rparr>"

definition demo_slot :: Slot where
  "demo_slot = \<lparr>slot_start = 0, slot_duration = 10, slot_number = 1\<rparr>"

definition demo_queue :: "ValidTransaction list" where
  "demo_queue =
     [\<lparr>Extrinsic = Some [0, 0], Validity = 1\<rparr>,
      \<lparr>Extrinsic = Some [1, 7], Validity = 2\<rparr>,
      \<lparr>Extrinsic = Some [2, 7], Validity = 3\<rparr>,
      \<lparr>Extrinsic = None, Validity = 4\<rparr>]"

definition demo_world :: "nat world" where
  "demo_world = \<lparr>rt_state = 0, queue = demo_queue, clock_reads = 0\<rparr>"

subsection \<open>Reading the outcome of one application\<close>

text \<open>
  The four ways an application of an extrinsic in a given runtime state can end, as
  \<^verbatim>\<open>buildBlockExtrinsics\<close> tells them apart: the call itself fails; the answer is no
  error; the answer is a dispatch-outcome error; the answer is any other error.
\<close>

datatype application = CallFailed | Applied | DispatchFailure | Rejected

definition application :: "('rt, 'idata) env \<Rightarrow> bytes \<Rightarrow> 'rt \<Rightarrow> application" where
  "application e extrinsic rt =
     (case fst (ApplyExtrinsic e extrinsic rt) of
        Inl er \<Rightarrow> CallFailed
      | Inr ret \<Rightarrow>
          (case determineErr e ret of
             None \<Rightarrow> Applied
           | Some er \<Rightarrow> if is_DispatchOutcomeError er then DispatchFailure else Rejected))"

definition stays_in_block :: "application \<Rightarrow> bool" where
  "stays_in_block a = (a = Applied \<or> a = DispatchFailure)"

text \<open>
  Whether a popped transaction is kept when it is applied in runtime state \<open>rt\<close>,
  the runtime state its application leaves, and the runtime states in which the
  transactions of a list are applied one after the other.
\<close>

definition keeps :: "('rt, 'idata) env \<Rightarrow> ValidTransaction \<Rightarrow> 'rt \<Rightarrow> bool" where
  "keeps e t rt =
     (case Extrinsic t of None \<Rightarrow> False | Some x \<Rightarrow> stays_in_block (application e x rt))"

definition state_after :: "('rt, 'idata) env \<Rightarrow> 'rt \<Rightarrow> ValidTransaction \<Rightarrow> 'rt" where
  "state_after e rt t =
     (case Extrinsic t of None \<Rightarrow> rt | Some x \<Rightarrow> snd (ApplyExtrinsic e x rt))"

fun states_before :: "('rt, 'idata) env \<Rightarrow> ValidTransaction list \<Rightarrow> 'rt \<Rightarrow> 'rt list" where
  "states_before e [] rt = []"
| "states_before e (t # ts) rt = rt # states_before e ts (state_after e rt t)"

definition kept_of ::
  "('rt, 'idata) env \<Rightarrow> ValidTransaction list \<Rightarrow> 'rt \<Rightarrow> ValidTransaction list" where
  "kept_of e ts rt = map fst (filter (\<lambda>(t, s). keeps e t s) (zip ts (states_before e ts rt)))"

text \<open>
  What a run of the loop from queue \<open>q\<close>, runtime state \<open>rt\<close>, clock reading \<open>n\<close>
  and included list \<open>inc\<close> has done when it ends with \<open>(inc', q', rt', n')\<close>: it
  popped the first \<open>k\<close> transactions, the slot had not ended at any of the \<open>k\<close>
  readings before them, and it stopped because the queue was empty or the slot had
  ended; it appended to \<open>inc\<close> those of the popped transactions that are kept.
\<close>

definition drain_spec ::
  "('rt, 'idata) env \<Rightarrow> Slot \<Rightarrow> ValidTransaction list \<Rightarrow> 'rt \<Rightarrow> nat \<Rightarrow> ValidTransaction list \<Rightarrow>
   ValidTransaction list \<Rightarrow> ValidTransaction list \<Rightarrow> 'rt \<Rightarrow> nat \<Rightarrow> bool" where
  "drain_spec e slot q rt n inc inc' q' rt' n' =
     (\<exists>k. k \<le> length q \<and> q' = drop k q \<and> n' = Suc (n + k)
        \<and> (\<forall>i<k. \<not> hasSlotEnded slot (wall_clock e (n + i)))
        \<and> (k = length q \<or> hasSlotEnded slot (wall_clock e (n + k)))
        \<and> inc' = inc @ kept_of e (take k q) rt
        \<and> rt' = foldl (state_after e) rt (take k q))"

subsection \<open>Reading the outcome of applying the inherents\<close>

text \<open>
  An inherent goes through, in runtime state \<open>rt\<close>, when it encodes, the call of
  \<^verbatim>\<open>BlockBuilder_apply_extrinsic\<close> succeeds and its answer is the two bytes \<open>0, 0\<close>.
  \<open>inherent_states\<close> lists the runtime states in which the inherents of a list are
  applied one after the other.
\<close>

definition inherent_ok :: "('rt, 'idata) env \<Rightarrow> bytes \<Rightarrow> 'rt \<Rightarrow> bool" where
  "inherent_ok e ext rt =
     (case scaleEncodeBytes e ext of
        Inl er \<Rightarrow> False
      | Inr inp \<Rightarrow> fst (ApplyExtrinsic e inp rt) = Inr [0, 0])"

definition inherent_state_after :: "('rt, 'idata) env \<Rightarrow> 'rt \<Rightarrow> bytes \<Rightarrow> 'rt" where
  "inherent_state_after e rt ext =
     (case scaleEncodeBytes e ext of
        Inl er \<Rightarrow> rt
      | Inr inp \<Rightarrow> snd (ApplyExtrinsic e inp rt))"

fun inherent_states :: "('rt, 'idata) env \<Rightarrow> bytes list \<Rightarrow> 'rt \<Rightarrow> 'rt list" where
  "inherent_states e [] rt = []"
| "inherent_states e (x # xs) rt = rt # inherent_states e xs (inherent_state_after e rt x)"

definition all_inherents_ok :: "('rt, 'idata) env \<Rightarrow> bytes list \<Rightarrow> 'rt \<Rightarrow> bool" where
  "all_inherents_ok e exts rt =
     list_all (\<lambda>(x, s). inherent_ok e x s) (zip exts (inherent_states e exts rt))"

text \<open>
  The demonstration environment with a block state that cannot give the finalised
  header, and a runtime that answers \<open>0, 0\<close> to every application.
\<close>

definition demo_env_no_finalised :: "(nat, unit) env" where
  "demo_env_no_finalised =
     demo_env\<lparr>ApplyExtrinsic := (\<lambda>b rt. (Inr [0, 0], Suc rt)),
              GetFinalizedHeader := (\<lambda>_ _. Inl (External ''finalised header not found''))\<rparr>"

text \<open>
  An environment that records the inherents: the inherent data is the list of the
  keys set with their values, its encoding is the list of the values as bytes, the
  runtime hands the encoding back as its inherent extrinsics, which decode to the one
  extrinsic they are, and every application is answered by \<open>0, 0\<close>.  The clock
  reads 5 seconds.
\<close>

definition inherents_env :: "(nat, (bytes \<times> int) list) env" where
  "inherents_env = \<lparr>
     wall_clock = (\<lambda>n. 5000000000 + int n),
     slotToProof = [1 \<mapsto> ([1], [2])],
     authorityIndex = 0,
     BabeEngineID = [66, 65, 66, 69],
     encodeBabeHeader = (\<lambda>d. pd_vrfOutput d @ pd_vrfProof d),
     headerHash = (\<lambda>_. zero_hash),
     NewHeader = (\<lambda>p s x n d. Inr \<lparr>ParentHash = p, Number = n, StateRoot = s,
                                   ExtrinsicsRoot = x, Digest = d\<rparr>),
     InitializeBlock = (\<lambda>h rt. (None, rt)),
     InherentExtrinsics = (\<lambda>b rt. (Inr b, Suc rt)),
     ApplyExtrinsic = (\<lambda>b rt. (Inr [0, 0], Suc rt)),
     FinalizeBlock = (\<lambda>rt. (Inr demo_header, rt)),
     determineErr = demo_determineErr,
     GetFinalizedHeader = (\<lambda>_ _. Inr (demo_header\<lparr>Number := 7\<rparr>)),
     NewInherentsData = [],
     Timstap0 = [1],
     Babeslot = [2],
     Finalnum = [3],
     SetInt64Inherent = (\<lambda>k v d. Inr (d @ [(k, uint v)])),
     SetBigIntInherent = (\<lambda>k v d. Inr (d @ [(k, v)])),
     idataEncode = (\<lambda>d. Inr (concat (map (\<lambda>(k, v). k @ [of_int v]) d))),
     scaleDecodeByteArrays = (\<lambda>b. Inr [b]),
     scaleEncodeBytes = Inr,
     scaleDecodeBytes = Inr,
     headerEncode = (\<lambda>h. Inr [of_nat (length (Digest h))]),
     Blake2bHash = (\<lambda>b. Inr zero_hash),
     keypairSign = Inr,
     NewBodyFromExtrinsics = (\<lambda>xs. Inr (concat xs)),
     queuePush = (\<lambda>t q. q @ [t])\<rparr>"

section \<open>Child tries (lib/trie/child_storage.go)\<close>

text \<open>
  A trie holds its own key-value content and the map \<^verbatim>\<open>childTries\<close> from a hash to a
  child trie (a pointer, which may be \<^verbatim>\<open>nil\<close>).  The content is of a type \<open>'m\<close> that
  is left open: \<^verbatim>\<open>Put\<close>, \<^verbatim>\<open>Get\<close> (whose \<^verbatim>\<open>nil\<close> is \<open>None\<close>) and \<^verbatim>\<open>Hash\<close> are
  parameters.  Tries are values here: a child is the trie as it was when it was put.
\<close>

datatype 'm Trie = Trie (content: 'm) (childTries: "hash32 \<Rightarrow> 'm Trie option option")

definition ChildStorageKeyPrefix :: bytes where
  "ChildStorageKeyPrefix = map (\<lambda>c. of_nat (of_char c)) '':child_storage:default:''"

text \<open>
  \<^verbatim>\<open>copy(hash[:], childHash)\<close> into a zeroed \<^verbatim>\<open>[32]byte\<close>: the first 32 bytes, padded
  with zeros.
\<close>

definition copy_to_hash :: "bytes \<Rightarrow> hash32" where
  "copy_to_hash bs = Abs_hash32 (take 32 (bs @ replicate 32 0))"

definition PutChild ::
  "('m Trie \<Rightarrow> err + hash32) \<Rightarrow> (bytes \<Rightarrow> bytes \<Rightarrow> 'm \<Rightarrow> 'm) \<Rightarrow>
   'm Trie \<Rightarrow> bytes \<Rightarrow> 'm Trie \<Rightarrow> err + 'm Trie" where
  "PutChild Hash Put t keyToChild child =
     (case Hash child of
        Inl er \<Rightarrow> Inl er
      | Inr childHash \<Rightarrow>
          (let key = ChildStorageKeyPrefix @ keyToChild;
               val = Rep_hash32 childHash
           in Inr (Trie (Put key val (content t))
                        ((childTries t)(childHash \<mapsto> Some child)))))"

definition GetChild ::
  "('m \<Rightarrow> bytes \<Rightarrow> bytes option) \<Rightarrow> 'm Trie \<Rightarrow> bytes \<Rightarrow> err + 'm Trie option" where
  "GetChild Get t keyToChild =
     (let key = ChildStorageKeyPrefix @ keyToChild in
      case Get (content t) key of
        None \<Rightarrow> Inl (ChildTrieDoesNotExist ChildStorageKeyPrefix keyToChild)
      | Some childHash \<Rightarrow>
          Inr (case childTries t (copy_to_hash childHash) of
                 None \<Rightarrow> None
               | Some child \<Rightarrow> child))"

section \<open>Storage reads of the host interface\<close>

text \<open>
  Modelled from the spec: the host functions \<^verbatim>\<open>ext_storage_read\<close>, \<^verbatim>\<open>ext_storage_get\<close>,
  \<^verbatim>\<open>ext_storage_next_key\<close> and \<^verbatim>\<open>ext_default_child_storage_get\<close> are not in the files at
  hand, only their tests are.  The storage is the key-value set, keys ordered
  bytewise; a child storage is keyed by the child's name.  The read with an offset
  \<^emph>\<open>fails with OutOfBounds when offset > value.len\<close> and gives the value from the
  offset on, cut to the size of the caller's buffer; every other read returns
  \<^emph>\<open>absent\<close> (here \<open>None\<close>) rather than an error.
\<close>

datatype storage_error = OutOfBounds

record storage =
  top :: "(bytes \<times> bytes) list"
  child :: "(bytes \<times> (bytes \<times> bytes) list) list"

text \<open>
  Modelled from the spec: \<^verbatim>\<open>ext_storage_get\<close> (not in the files at hand), the operation
  \<open>get(k) \<rightarrow> bytes?\<close>.
\<close>

definition ext_storage_get :: "storage \<Rightarrow> bytes \<Rightarrow> storage_error + bytes option" where
  "ext_storage_get s key = Inr (map_of (top s) key)"

text \<open>
  Modelled from the spec: \<^verbatim>\<open>ext_storage_read\<close> (not in the files at hand), the read with
  an offset, which \<^emph>\<open>fails with OutOfBounds when offset > value.len\<close>.
\<close>

definition ext_storage_read ::
  "storage \<Rightarrow> bytes \<Rightarrow> nat \<Rightarrow> nat \<Rightarrow> storage_error + bytes option" where
  "ext_storage_read s key offset buffer_size =
     (case map_of (top s) key of
        None \<Rightarrow> Inr None
      | Some v \<Rightarrow>
          if offset > length v then Inl OutOfBounds
          else Inr (Some (take buffer_size (drop offset v))))"

text \<open>Bytewise order of keys: a proper prefix comes first.\<close>

fun key_less :: "bytes \<Rightarrow> bytes \<Rightarrow> bool" where
  "key_less [] [] = False"
| "key_less [] (y # ys) = True"
| "key_less (x # xs) [] = False"
| "key_less (x # xs) (y # ys) = (x < y \<or> (x = y \<and> key_less xs ys))"

fun least_key :: "bytes list \<Rightarrow> bytes option" where
  "least_key [] = None"
| "least_key (k # ks) =
     (case least_key ks of
        None \<Rightarrow> Some k
      | Some m \<Rightarrow> if key_less m k then Some m else Some k)"

text \<open>
  Modelled from the spec: \<^verbatim>\<open>ext_storage_next_key\<close> (not in the files at hand), the
  operation \<open>next_key(k) \<rightarrow> k?\<close>: the least key after \<open>k\<close>.
\<close>

definition ext_storage_next_key :: "storage \<Rightarrow> bytes \<Rightarrow> storage_error + bytes option" where
  "ext_storage_next_key s key =
     Inr (least_key (filter (key_less key) (map fst (top s))))"

text \<open>
  Modelled from the spec: \<^verbatim>\<open>ext_default_child_storage_get\<close> (not in the files at hand),
  the child-trie analogue of \<open>get\<close>, keyed by \<open>(child_name, k)\<close>.
\<close>

definition ext_default_child_storage_get ::
  "storage \<Rightarrow> bytes \<Rightarrow> bytes \<Rightarrow> storage_error + bytes option" where
  "ext_default_child_storage_get s child_name key =
     (case map_of (child s) child_name of
        None \<Rightarrow> Inr None
      | Some kv \<Rightarrow> Inr (map_of kv key))"

text \<open>
  The storage of the tests of \<^verbatim>\<open>ext_storage_read_version_1\<close>: the key \<open>noot\<close> holds
  \<open>washere\<close>.
\<close>

definition ascii :: "string \<Rightarrow> bytes" where
  "ascii s = map (\<lambda>c. of_nat (of_char c)) s"

definition noot_storage :: storage where
  "noot_storage = \<lparr>top = [(ascii ''noot'', ascii ''washere'')], child = []\<rparr>"

section \<open>Block tree and finalisation\<close>

subsection \<open>The tree\<close>

text \<open>
  Modelled from the spec: the block tree (its code is not in the files at hand, only
  \<^verbatim>\<open>dot/state/block_test.go\<close> is).  \<^emph>\<open>A rooted in-memory tree of headers with arrival
  timestamps\<close>: a node carries the hash and the number of its block and the time it
  arrived, and its children in the order in which they were attached.  The root is
  the last finalised block.
\<close>

datatype 'h node = Node (nhash: 'h) (number: nat) (arrival: nat) (children: "'h node list")

fun hashes :: "'h node \<Rightarrow> 'h list" where
  "hashes (Node h n a cs) = h # concat (map hashes cs)"

fun leaves :: "'h node \<Rightarrow> 'h node list" where
  "leaves (Node h n a cs) = (if cs = [] then [Node h n a cs] else concat (map leaves cs))"

fun first_some :: "'a option list \<Rightarrow> 'a option" where
  "first_some [] = None"
| "first_some (None # xs) = first_some xs"
| "first_some (Some x # xs) = Some x"

text \<open>Modelled from the spec: the node of a block, looked up by hash.\<close>

fun subtree :: "'h \<Rightarrow> 'h node \<Rightarrow> 'h node option" where
  "subtree x (Node h n a cs) =
     (if h = x then Some (Node h n a cs) else first_some (map (subtree x) cs))"

text \<open>
  Modelled from the spec: whether block \<open>d\<close> is \<open>a\<close> or descends from it.
\<close>

definition is_descendant_of :: "'h node \<Rightarrow> 'h \<Rightarrow> 'h \<Rightarrow> bool" where
  "is_descendant_of t a d = (case subtree a t of None \<Rightarrow> False | Some n \<Rightarrow> d \<in> set (hashes n))"

subsection \<open>Insertion\<close>

text \<open>
  Modelled from the spec: insertion into the tree.  \<^emph>\<open>Verify header (parent present,
  number = parent.number + 1, ...), then attach to the tree and update leaves\<close>; a
  missing parent \<^emph>\<open>fails with UnknownParent\<close>.  The checks of the slot digest, the seal
  and the state root are outside the tree.
\<close>

record 'h block_header =
  hdr_hash :: 'h
  hdr_parent :: 'h
  hdr_number :: nat

datatype tree_error = UnknownParent | BadNumber | NotDescendantOfFinalised

fun add_child :: "'h \<Rightarrow> 'h node \<Rightarrow> 'h node \<Rightarrow> 'h node" where
  "add_child p c (Node h n a cs) =
     (if h = p then Node h n a (cs @ [c]) else Node h n a (map (add_child p c) cs))"

definition add_block :: "'h node \<Rightarrow> 'h block_header \<Rightarrow> nat \<Rightarrow> tree_error + 'h node" where
  "add_block t hdr arrival_time =
     (case subtree (hdr_parent hdr) t of
        None \<Rightarrow> Inl UnknownParent
      | Some parent \<Rightarrow>
          if hdr_number hdr \<noteq> Suc (number parent) then Inl BadNumber
          else Inr (add_child (hdr_parent hdr)
                      (Node (hdr_hash hdr) (hdr_number hdr) arrival_time []) t))"

subsection \<open>Fork choice\<close>

text \<open>
  Modelled from the spec: \<^emph>\<open>best head is the leaf maximising (number, -arrival_time,
  hash-ordering), i.e., highest number wins, earliest arrival breaks ties, hash order
  is the final deterministic tie-break\<close>.  \<open>better a b\<close>: the key of \<open>a\<close> is greater
  than the key of \<open>b\<close>.
\<close>

definition better :: "('h::linorder) node \<Rightarrow> 'h node \<Rightarrow> bool" where
  "better a b =
     (number a > number b
      \<or> (number a = number b
          \<and> (arrival a < arrival b \<or> (arrival a = arrival b \<and> nhash a > nhash b))))"

definition best_of :: "('h::linorder) node \<Rightarrow> 'h node list \<Rightarrow> 'h node" where
  "best_of = foldl (\<lambda>b x. if better x b then x else b)"

text \<open>Modelled from the spec: the best head, searched among the leaves.\<close>

definition best_head :: "('h::linorder) node \<Rightarrow> 'h node" where
  "best_head t = (case leaves t of [] \<Rightarrow> t | l # ls \<Rightarrow> best_of l ls)"

subsection \<open>Finalisation\<close>

text \<open>
  Modelled from the spec: the blocks to delete when \<open>fin\<close> is finalised, \<^emph>\<open>every
  block not on the path to it or descended from it\<close>.  The walk starts at the root: the
  finalised block keeps all below it; a block above the finalised one is kept and the
  walk goes on in its children; any other block is deleted, and so is all below it.
\<close>

fun prune_node :: "'h \<Rightarrow> 'h node \<Rightarrow> 'h list" where
  "prune_node fin (Node h n a cs) =
     (if h = fin then []
      else if fin \<in> set (concat (map hashes cs)) then concat (map (prune_node fin) cs)
      else h # concat (map (prune_node fin) cs))"

text \<open>
  Modelled from the spec: the block state with its tree and the stored headers and
  bodies, and \<^verbatim>\<open>SetFinalizedHash\<close> (called by the test, defined outside the files at
  hand): \<^emph>\<open>assert hash is a descendant of the current finalised root; set it as new
  root; delete every block not on the path to it or descended from it\<close>.
\<close>

record ('h, 'hd, 'bd) block_store =
  bt :: "'h node"
  headers :: "'h \<rightharpoonup> 'hd"
  bodies :: "'h \<rightharpoonup> 'bd"
  finalised_hash :: "nat \<times> nat \<rightharpoonup> 'h"

definition SetFinalizedHash ::
  "('h, 'hd, 'bd) block_store \<Rightarrow> 'h \<Rightarrow> nat \<Rightarrow> nat \<Rightarrow> tree_error + ('h, 'hd, 'bd) block_store" where
  "SetFinalizedHash bs h round setID =
     (case subtree h (bt bs) of
        None \<Rightarrow> Inl NotDescendantOfFinalised
      | Some n \<Rightarrow>
          (let pruned = prune_node h (bt bs)
           in Inr (bs\<lparr>bt := n,
                      headers := (\<lambda>b. if b \<in> set pruned then None else headers bs b),
                      bodies := (\<lambda>b. if b \<in> set pruned then None else bodies bs b),
                      finalised_hash := (finalised_hash bs)((round, setID) \<mapsto> h)\<rparr>)))"

text \<open>
  The chains \<open>G \<leftarrow> A \<leftarrow> B\<close> (hashes 0, 1, 2) and \<open>G \<leftarrow> A' \<leftarrow> B' \<leftarrow> C'\<close>
  (hashes 0, 11, 12, 13) in one tree, with a header and a body stored for each block.
\<close>

definition fork_tree :: "nat node" where
  "fork_tree =
     Node 0 0 0 [Node 1 1 1 [Node 2 2 2 []], Node 11 1 3 [Node 12 2 4 [Node 13 3 5 []]]]"

definition fork_store :: "(nat, nat, nat) block_store" where
  "fork_store =
     \<lparr>bt = fork_tree,
      headers = (\<lambda>b. if b \<in> set (hashes fork_tree) then Some b else None),
      bodies = (\<lambda>b. if b \<in> set (hashes fork_tree) then Some b else None),
      finalised_hash = [(0, 0) \<mapsto> 0]\<rparr>"

section \<open>The merkle trie\<close>

subsection \<open>Nodes and keys\<close>

text \<open>
  Modelled from the spec: the trie (its code is not in the files at hand; the child
  tries and the tests call its \<^verbatim>\<open>Put\<close>, \<^verbatim>\<open>Get\<close>, \<^verbatim>\<open>Delete\<close> and \<^verbatim>\<open>Hash\<close>).  \<^emph>\<open>A
  Patricia-Merkle radix trie over nibble keys.  Nodes are one of: empty, leaf(key-suffix,
  value), branch(16 children + optional value)\<close>; the header of an encoded branch carries
  a partial key as that of a leaf does.  The 16 children are indexed by the nibble.
\<close>

type_synonym nibble = "4 word"

datatype trie_node =
    Empty
  | Leaf "nibble list" bytes
  | Branch "nibble list" "nibble \<Rightarrow> trie_node" "bytes option"


definition present :: "trie_node \<Rightarrow> bool" where
  "present n = (case n of Empty \<Rightarrow> False | _ \<Rightarrow> True)"


definition no_children :: "nibble \<Rightarrow> trie_node" where
  "no_children = (\<lambda>_. Empty)"

subsection \<open>Get, put and delete\<close>


text \<open>
  Modelled from the spec: a new key and an old node part at the end \<open>p\<close> of what they
  share.  \<open>r\<close> is what is left of the new key and \<open>old\<close> what is left of the old
  node's key; the old node hangs below the branch (\<open>below\<close> builds it from the rest of
  its key), or, when nothing is left of its key, its value sits at the branch.
\<close>

definition fork ::
  "nibble list \<Rightarrow> nibble list \<Rightarrow> bytes \<Rightarrow> nibble list \<Rightarrow> (nibble list \<Rightarrow> trie_node) \<Rightarrow>
   bytes option \<Rightarrow> trie_node" where
  "fork p r v old below old_value =
     (let cs = (case old of [] \<Rightarrow> no_children | i # rest \<Rightarrow> no_children(i := below rest));
          vo = (case old of [] \<Rightarrow> old_value | _ \<Rightarrow> None)
      in case r of
           [] \<Rightarrow> Branch p cs (Some v)
         | j # rest \<Rightarrow> Branch p (cs(j := Leaf rest v)) vo)"

text \<open>
  Modelled from the spec: \<open>put(k, v)\<close>.  \<^emph>\<open>Insertion walks existing nodes, splitting
  shared prefixes into branch structure as needed.\<close>
\<close>

primrec put :: "trie_node \<Rightarrow> nibble list \<Rightarrow> bytes \<Rightarrow> trie_node" where
  "put Empty k v = Leaf k v"
| "put (Leaf lk lv) k v =
     (if k = lk then Leaf k v
      else let p = longest_common_prefix k lk; n = length p
           in fork p (drop n k) v (drop n lk) (\<lambda>rest. Leaf rest lv) (Some lv))"
| "put (Branch pk cs vo) k v =
     (if k = pk then Branch pk cs (Some v)
      else let p = longest_common_prefix k pk; n = length p
           in if p = pk
              then (case drop n k of
                      [] \<Rightarrow> Branch pk cs (Some v)
                    | i # rest \<Rightarrow> Branch pk (cs(i := put (cs i) rest v)) vo)
              else fork p (drop n k) v (drop n pk) (\<lambda>rest. Branch rest cs vo) None)"



subsection \<open>Sequences of operations\<close>







subsection \<open>The root\<close>







subsection \<open>The shape of a trie\<close>





section \<open>Theorems\<close>

text \<open>
  C9.  The import-state action returns an error unless \<^verbatim>\<open>--state\<close>, \<^verbatim>\<open>--header\<close> and
  \<^verbatim>\<open>--first-slot\<close> are all supplied; a missing flag and an empty string are the same,
  and a first slot of 0 is rejected like a missing one.  The checks are made in this
  order and each has its own message.  Whenever a command action returns an error the
  process prints exactly that error to standard error and exits with code 1; when the
  action returns no error nothing is printed and the exit code is 0.
\<close>

theorem import_state_flags_and_exit_code:
  fixes action :: "cli_ctx \<Rightarrow> err option"
  shows "(string_flags ctx StateFlag_Name \<in> {None, Some []} \<longrightarrow>
            importStateAction cfgOf basePath expand importState ctx =
              Some (ErrorsNew ''must provide argument to --state''))
       \<and> (string_flags ctx StateFlag_Name \<notin> {None, Some []} \<longrightarrow>
            string_flags ctx HeaderFlag_Name \<in> {None, Some []} \<longrightarrow>
            importStateAction cfgOf basePath expand importState ctx =
              Some (ErrorsNew ''must provide argument to --header''))
       \<and> (string_flags ctx StateFlag_Name \<notin> {None, Some []} \<longrightarrow>
            string_flags ctx HeaderFlag_Name \<notin> {None, Some []} \<longrightarrow>
            int_flags ctx FirstSlotFlag_Name \<in> {None, Some 0} \<longrightarrow>
            importStateAction cfgOf basePath expand importState ctx =
              Some (ErrorsNew ''must provide argument to --first-slot''))
       \<and> (importStateAction cfgOf basePath expand importState ctx = None \<longrightarrow>
            (\<exists>s h n. string_flags ctx StateFlag_Name = Some s \<and> s \<noteq> []
                   \<and> string_flags ctx HeaderFlag_Name = Some h \<and> h \<noteq> []
                   \<and> int_flags ctx FirstSlotFlag_Name = Some n \<and> n \<noteq> 0))
       \<and> (\<forall>e. action ctx = Some e \<longrightarrow>
            run_command action ctx = \<lparr>stderr = [e], exit_code = 1\<rparr>)
       \<and> (action ctx = None \<longrightarrow>
            run_command action ctx = \<lparr>stderr = [], exit_code = 0\<rparr>)"
  by (auto simp: importStateAction_def ctx_String_def ctx_Int_def run_command_def main_def
        Let_def split: option.splits sum.splits if_splits)

theorem import_state_flags_and_exit_code_witness:
  "(let ctx = \<lparr>string_flags = [''state'' \<mapsto> ''s.json'', ''header'' \<mapsto> ''h.json''],
               int_flags = [''first-slot'' \<mapsto> 0]\<rparr>;
        act = importStateAction (\<lambda>_. Inr ()) (\<lambda>_. ''base'') (\<lambda>p. p) (\<lambda>_ _ _ _. None)
    in string_flags ctx StateFlag_Name \<notin> {None, Some []}
     \<and> string_flags ctx HeaderFlag_Name \<notin> {None, Some []}
     \<and> int_flags ctx FirstSlotFlag_Name \<in> {None, Some 0}
     \<and> act ctx = Some (ErrorsNew ''must provide argument to --first-slot'')
     \<and> run_command act ctx =
         \<lparr>stderr = [ErrorsNew ''must provide argument to --first-slot''], exit_code = 1\<rparr>)"
  using import_state_flags_and_exit_code
    [of "\<lparr>string_flags = [''state'' \<mapsto> ''s.json'', ''header'' \<mapsto> ''h.json''],
          int_flags = [''first-slot'' \<mapsto> 0]\<rparr>"
        "\<lambda>_. Inr ()" "\<lambda>_. ''base''" "\<lambda>p. p" "\<lambda>_ _ _ _. None"
        "importStateAction (\<lambda>_. Inr ()) (\<lambda>_. ''base'') (\<lambda>p. p) (\<lambda>_ _ _ _. None)"]
  by (simp add: StateFlag_Name_def HeaderFlag_Name_def FirstSlotFlag_Name_def Let_def)

subsection \<open>Notification channels\<close>

lemma len_map_le_256: "len_map (m :: byte \<rightharpoonup> 'a) \<le> 256"
proof -
  have "card (dom m) \<le> card (UNIV :: byte set)"
    by (rule card_mono) auto
  then show ?thesis by (simp add: len_map_def card_word)
qed

lemma free_key_exists:
  assumes "len_map (m :: byte \<rightharpoonup> 'a) \<noteq> 256"
  shows "\<exists>i. m i = None"
proof (rule ccontr)
  assume "\<not> (\<exists>i. m i = None)"
  then have "dom m = UNIV" by auto
  then have "len_map m = 256" by (simp add: len_map_def card_word)
  with assms show False by simp
qed

lemma pick_free_id_finds:
  assumes "n \<le> k" and "is_nil_at m (generateID rnd k)"
  shows "\<exists>k'. n \<le> k' \<and> k' \<le> k \<and> is_nil_at m (generateID rnd k')
            \<and> pick_free_id rnd m n = Some (generateID rnd k', Suc k')"
  using assms
proof (induction "k - n" arbitrary: n)
  case 0
  then have "n = k" by simp
  with 0 show ?case by (subst pick_free_id.simps) auto
next
  case (Suc d)
  show ?case
  proof (cases "is_nil_at m (generateID rnd n)")
    case True
    with Suc.prems show ?thesis by (subst pick_free_id.simps) auto
  next
    case False
    from Suc have "d = k - Suc n" "Suc n \<le> k" by simp_all
    from Suc.hyps(1)[OF this Suc.prems(2)] obtain k' where
      "Suc n \<le> k'" "k' \<le> k" "is_nil_at m (generateID rnd k')"
      "pick_free_id rnd m (Suc n) = Some (generateID rnd k', Suc k')" by blast
    with False show ?thesis
      by (subst pick_free_id.simps) (auto intro!: exI[of _ k'])
  qed
qed

lemma pick_free_id_Some:
  assumes "pick_free_id rnd m n = Some y"
  shows "is_nil_at m (fst y) \<and> n < snd y \<and> fst y = generateID rnd (snd y - 1)
         \<and> (\<forall>j. n \<le> j \<and> j < snd y - 1 \<longrightarrow> \<not> is_nil_at m (generateID rnd j))"
proof (rule pick_free_id.raw_induct[OF _ assms])
  fix f and rnd :: "nat \<Rightarrow> nat" and m :: "byte \<rightharpoonup> 'a option" and n y
  assume IH: "\<And>rnd m n y. f rnd m n = Some y \<Longrightarrow>
                is_nil_at m (fst y) \<and> n < snd y \<and> fst y = generateID rnd (snd y - 1)
                \<and> (\<forall>j. n \<le> j \<and> j < snd y - 1 \<longrightarrow> \<not> is_nil_at m (generateID rnd j))"
    and eq: "(if is_nil_at m (generateID rnd n) then Some (generateID rnd n, Suc n)
              else f rnd m (Suc n)) = Some y"
  show "is_nil_at m (fst y) \<and> n < snd y \<and> fst y = generateID rnd (snd y - 1)
         \<and> (\<forall>j. n \<le> j \<and> j < snd y - 1 \<longrightarrow> \<not> is_nil_at m (generateID rnd j))"
  proof (cases "is_nil_at m (generateID rnd n)")
    case True
    with eq show ?thesis by auto
  next
    case False
    with eq have "f rnd m (Suc n) = Some y" by simp
    from IH[OF this] have a: "is_nil_at m (fst y)" and b: "Suc n < snd y"
      and c: "fst y = generateID rnd (snd y - 1)"
      and d: "\<forall>j. Suc n \<le> j \<and> j < snd y - 1 \<longrightarrow> \<not> is_nil_at m (generateID rnd j)"
      by blast+
    have "\<forall>j. n \<le> j \<and> j < snd y - 1 \<longrightarrow> \<not> is_nil_at m (generateID rnd j)"
    proof (intro allI impI)
      fix j assume j: "n \<le> j \<and> j < snd y - 1"
      show "\<not> is_nil_at m (generateID rnd j)"
      proof (cases "j = n")
        case True with False show ?thesis by simp
      next
        case False with j d show ?thesis by auto
      qed
    qed
    with a b c show ?thesis by simp
  qed
qed

lemma register_channel_full:
  "len_map m = 256 \<Longrightarrow>
     register_channel rnd m ch n = Some (Inl (ErrorsNew ''channel limit reached''), n)"
  by (simp add: register_channel_def)

lemma register_channel_Inl:
  assumes "register_channel rnd m ch n = Some (Inl e, n')"
  shows "len_map m = 256 \<and> e = ErrorsNew ''channel limit reached'' \<and> n' = n"
  using assms by (auto simp: register_channel_def split: if_splits option.splits)

lemma register_channel_Inr:
  assumes "register_channel rnd m ch n = Some (Inr (i, m'), n')"
  shows "len_map m < 256 \<and> is_nil_at m i \<and> m' = m(i \<mapsto> ch)"
proof -
  from assms have ne: "len_map m \<noteq> 256" and p: "pick_free_id rnd m n = Some (i, n')"
    and m': "m' = m(i \<mapsto> ch)"
    by (auto simp: register_channel_def split: if_splits option.splits)
  from ne len_map_le_256[of m] have "len_map m < 256" by simp
  moreover from pick_free_id_Some[OF p] have "is_nil_at m i" by auto
  ultimately show ?thesis using m' by simp
qed

lemma register_channel_returns:
  assumes ne: "len_map m \<noteq> 256" and "n \<le> k" and "is_nil_at m (generateID rnd k)"
  shows "\<exists>i n'. register_channel rnd m ch n = Some (Inr (i, m(i \<mapsto> ch)), n')"
proof -
  from pick_free_id_finds[OF assms(2,3)] obtain k' where
    "pick_free_id rnd m n = Some (generateID rnd k', Suc k')" by blast
  with ne show ?thesis by (simp add: register_channel_def)
qed

lemma RegisterImportedChannel_Inl:
  assumes "RegisterImportedChannel rnd ch (bs, n) = Some (Inl e, bs', n')"
  shows "len_map (imported bs) = 256 \<and> e = ErrorsNew ''channel limit reached'' \<and> bs' = bs"
proof -
  from assms have "register_channel rnd (imported bs) ch n = Some (Inl e, n')" and "bs' = bs"
    by (auto simp: RegisterImportedChannel_def split: option.splits sum.splits prod.splits)
  with register_channel_Inl show ?thesis by blast
qed

lemma RegisterImportedChannel_Inr:
  assumes "RegisterImportedChannel rnd ch (bs, n) = Some (Inr i, bs', n')"
  shows "len_map (imported bs) < 256 \<and> is_nil_at (imported bs) i
        \<and> bs' = bs\<lparr>imported := (imported bs)(i \<mapsto> ch)\<rparr>"
proof -
  from assms obtain m' where r: "register_channel rnd (imported bs) ch n = Some (Inr (i, m'), n')"
      and b: "bs' = bs\<lparr>imported := m'\<rparr>"
    by (auto simp: RegisterImportedChannel_def split: option.splits sum.splits prod.splits)
  from register_channel_Inr[OF r] b show ?thesis by simp
qed

lemma RegisterImportedChannel_returns:
  assumes "len_map (imported bs) \<noteq> 256" and "n \<le> k"
    and "is_nil_at (imported bs) (generateID rnd k)"
  shows "\<exists>i n'. RegisterImportedChannel rnd ch (bs, n) =
                  Some (Inr i, bs\<lparr>imported := (imported bs)(i \<mapsto> ch)\<rparr>, n')"
proof -
  from register_channel_returns[OF assms] obtain i n' where
    "register_channel rnd (imported bs) ch n = Some (Inr (i, (imported bs)(i \<mapsto> ch)), n')"
    by blast
  then have "RegisterImportedChannel rnd ch (bs, n) =
                  Some (Inr i, bs\<lparr>imported := (imported bs)(i \<mapsto> ch)\<rparr>, n')"
    by (simp add: RegisterImportedChannel_def)
  then show ?thesis by blast
qed

lemma RegisterFinalizedChannel_Inl:
  assumes "RegisterFinalizedChannel rnd ch (bs, n) = Some (Inl e, bs', n')"
  shows "len_map (finalised bs) = 256 \<and> e = ErrorsNew ''channel limit reached'' \<and> bs' = bs"
proof -
  from assms have "register_channel rnd (finalised bs) ch n = Some (Inl e, n')" and "bs' = bs"
    by (auto simp: RegisterFinalizedChannel_def split: option.splits sum.splits prod.splits)
  with register_channel_Inl show ?thesis by blast
qed

lemma RegisterFinalizedChannel_Inr:
  assumes "RegisterFinalizedChannel rnd ch (bs, n) = Some (Inr i, bs', n')"
  shows "len_map (finalised bs) < 256 \<and> is_nil_at (finalised bs) i
        \<and> bs' = bs\<lparr>finalised := (finalised bs)(i \<mapsto> ch)\<rparr>"
proof -
  from assms obtain m' where r: "register_channel rnd (finalised bs) ch n = Some (Inr (i, m'), n')"
      and b: "bs' = bs\<lparr>finalised := m'\<rparr>"
    by (auto simp: RegisterFinalizedChannel_def split: option.splits sum.splits prod.splits)
  from register_channel_Inr[OF r] b show ?thesis by simp
qed

lemma RegisterFinalizedChannel_returns:
  assumes "len_map (finalised bs) \<noteq> 256" and "n \<le> k"
    and "is_nil_at (finalised bs) (generateID rnd k)"
  shows "\<exists>i n'. RegisterFinalizedChannel rnd ch (bs, n) =
                  Some (Inr i, bs\<lparr>finalised := (finalised bs)(i \<mapsto> ch)\<rparr>, n')"
proof -
  from register_channel_returns[OF assms] obtain i n' where
    "register_channel rnd (finalised bs) ch n = Some (Inr (i, (finalised bs)(i \<mapsto> ch)), n')"
    by blast
  then have "RegisterFinalizedChannel rnd ch (bs, n) =
                  Some (Inr i, bs\<lparr>finalised := (finalised bs)(i \<mapsto> ch)\<rparr>, n')"
    by (simp add: RegisterFinalizedChannel_def)
  then show ?thesis by blast
qed


lemma register_channel_draw:
  assumes "register_channel rnd m ch n = Some (Inr (i, m'), n')"
  shows "n < n' \<and> i = of_nat (rnd (n' - 1) mod 256)
         \<and> (\<forall>j. n \<le> j \<and> j < n' - 1 \<longrightarrow> \<not> is_nil_at m (of_nat (rnd j mod 256)))"
proof -
  from assms have p: "pick_free_id rnd m n = Some (i, n')"
    by (auto simp: register_channel_def split: if_splits option.splits)
  from pick_free_id_Some[OF p] show ?thesis by (simp add: generateID_def)
qed

lemma fair_draws_free:
  assumes ne: "len_map (m :: byte \<rightharpoonup> 'a option) \<noteq> 256"
    and fair: "\<forall>b::byte. \<exists>k\<ge>n. of_nat (rnd k mod 256) = b"
  shows "\<exists>k\<ge>n. is_nil_at m (generateID rnd k)"
proof -
  from free_key_exists[OF ne] obtain i where i: "m i = None" by blast
  from fair obtain k where "n \<le> k" "of_nat (rnd k mod 256) = i" by blast
  with i show ?thesis by (auto simp: generateID_def is_nil_at_def)
qed

lemma RegisterImportedChannel_all:
  fixes bs :: "('c, 'f) BlockState"
  shows "(len_map (imported bs) = 256 \<longrightarrow>
        RegisterImportedChannel rnd ch (bs, n) =
          Some (Inl (ErrorsNew ''channel limit reached''), bs, n))
   \<and> (\<forall>e bs' n'. RegisterImportedChannel rnd ch (bs, n) = Some (Inl e, bs', n') \<longrightarrow>
        len_map (imported bs) = 256 \<and> e = ErrorsNew ''channel limit reached'' \<and> bs' = bs)
   \<and> (\<forall>i bs' n'. RegisterImportedChannel rnd ch (bs, n) = Some (Inr i, bs', n') \<longrightarrow>
        len_map (imported bs) < 256 \<and> is_nil_at (imported bs) i
        \<and> bs' = bs\<lparr>imported := (imported bs)(i \<mapsto> ch)\<rparr>
        \<and> n < n' \<and> i = of_nat (rnd (n' - 1) mod 256)
        \<and> (\<forall>j. n \<le> j \<and> j < n' - 1 \<longrightarrow> \<not> is_nil_at (imported bs) (of_nat (rnd j mod 256)))
        \<and> (\<forall>j x. imported bs j = Some (Some x) \<longrightarrow> i \<noteq> j))
   \<and> (len_map (imported bs) \<noteq> 256 \<longrightarrow> (\<exists>i. imported bs i = None))
   \<and> (len_map (imported bs) \<noteq> 256 \<longrightarrow>
        (\<exists>k\<ge>n. is_nil_at (imported bs) (of_nat (rnd k mod 256))) \<longrightarrow>
        (\<exists>i n'. RegisterImportedChannel rnd ch (bs, n) =
                  Some (Inr i, bs\<lparr>imported := (imported bs)(i \<mapsto> ch)\<rparr>, n')))
   \<and> (len_map (imported bs) \<noteq> 256 \<longrightarrow>
        (\<forall>b::byte. \<exists>k\<ge>n. of_nat (rnd k mod 256) = b) \<longrightarrow>
        (\<exists>i n'. RegisterImportedChannel rnd ch (bs, n) =
                  Some (Inr i, bs\<lparr>imported := (imported bs)(i \<mapsto> ch)\<rparr>, n')))"
proof (intro conjI allI impI)
  assume "len_map (imported bs) = 256"
  then show "RegisterImportedChannel rnd ch (bs, n) =
          Some (Inl (ErrorsNew ''channel limit reached''), bs, n)"
    by (simp add: RegisterImportedChannel_def register_channel_full)
next
  fix e bs' n' assume "RegisterImportedChannel rnd ch (bs, n) = Some (Inl e, bs', n')"
  from RegisterImportedChannel_Inl[OF this]
  show "len_map (imported bs) = 256" "e = ErrorsNew ''channel limit reached''" "bs' = bs"
    by simp_all
next
  fix i bs' n' assume r: "RegisterImportedChannel rnd ch (bs, n) = Some (Inr i, bs', n')"
  from RegisterImportedChannel_Inr[OF r]
  show "len_map (imported bs) < 256" and nil: "is_nil_at (imported bs) i"
    and "bs' = bs\<lparr>imported := (imported bs)(i \<mapsto> ch)\<rparr>"
    by simp_all
  from r obtain m' where "register_channel rnd (imported bs) ch n = Some (Inr (i, m'), n')"
    by (auto simp: RegisterImportedChannel_def split: option.splits sum.splits prod.splits)
  from register_channel_draw[OF this]
  show "n < n'" "i = of_nat (rnd (n' - 1) mod 256)"
    by simp_all
  { fix j assume "n \<le> j \<and> j < n' - 1"
    with register_channel_draw[OF \<open>register_channel rnd (imported bs) ch n = Some (Inr (i, m'), n')\<close>]
    show "\<not> is_nil_at (imported bs) (of_nat (rnd j mod 256))" by blast }
  { fix j x assume "imported bs j = Some (Some x)"
    with nil show "i \<noteq> j" by (auto simp: is_nil_at_def) }
next
  assume "len_map (imported bs) \<noteq> 256"
  then show "\<exists>i. imported bs i = None" by (rule free_key_exists)
next
  assume ne: "len_map (imported bs) \<noteq> 256"
    and "\<exists>k\<ge>n. is_nil_at (imported bs) (of_nat (rnd k mod 256))"
  then obtain k where "n \<le> k" "is_nil_at (imported bs) (generateID rnd k)"
    by (auto simp: generateID_def)
  from RegisterImportedChannel_returns[OF ne this]
  show "\<exists>i n'. RegisterImportedChannel rnd ch (bs, n) =
                  Some (Inr i, bs\<lparr>imported := (imported bs)(i \<mapsto> ch)\<rparr>, n')" .
next
  assume ne: "len_map (imported bs) \<noteq> 256"
    and fair: "\<forall>b::byte. \<exists>k\<ge>n. of_nat (rnd k mod 256) = b"
  from fair_draws_free[OF ne fair] obtain k where
    "n \<le> k" "is_nil_at (imported bs) (generateID rnd k)" by blast
  from RegisterImportedChannel_returns[OF ne this]
  show "\<exists>i n'. RegisterImportedChannel rnd ch (bs, n) =
                  Some (Inr i, bs\<lparr>imported := (imported bs)(i \<mapsto> ch)\<rparr>, n')" .
qed

lemma RegisterFinalizedChannel_all:
  fixes bs :: "('c, 'f) BlockState"
  shows "(len_map (finalised bs) = 256 \<longrightarrow>
        RegisterFinalizedChannel rnd ch (bs, n) =
          Some (Inl (ErrorsNew ''channel limit reached''), bs, n))
   \<and> (\<forall>e bs' n'. RegisterFinalizedChannel rnd ch (bs, n) = Some (Inl e, bs', n') \<longrightarrow>
        len_map (finalised bs) = 256 \<and> e = ErrorsNew ''channel limit reached'' \<and> bs' = bs)
   \<and> (\<forall>i bs' n'. RegisterFinalizedChannel rnd ch (bs, n) = Some (Inr i, bs', n') \<longrightarrow>
        len_map (finalised bs) < 256 \<and> is_nil_at (finalised bs) i
        \<and> bs' = bs\<lparr>finalised := (finalised bs)(i \<mapsto> ch)\<rparr>
        \<and> n < n' \<and> i = of_nat (rnd (n' - 1) mod 256)
        \<and> (\<forall>j. n \<le> j \<and> j < n' - 1 \<longrightarrow> \<not> is_nil_at (finalised bs) (of_nat (rnd j mod 256)))
        \<and> (\<forall>j x. finalised bs j = Some (Some x) \<longrightarrow> i \<noteq> j))
   \<and> (len_map (finalised bs) \<noteq> 256 \<longrightarrow> (\<exists>i. finalised bs i = None))
   \<and> (len_map (finalised bs) \<noteq> 256 \<longrightarrow>
        (\<exists>k\<ge>n. is_nil_at (finalised bs) (of_nat (rnd k mod 256))) \<longrightarrow>
        (\<exists>i n'. RegisterFinalizedChannel rnd ch (bs, n) =
                  Some (Inr i, bs\<lparr>finalised := (finalised bs)(i \<mapsto> ch)\<rparr>, n')))
   \<and> (len_map (finalised bs) \<noteq> 256 \<longrightarrow>
        (\<forall>b::byte. \<exists>k\<ge>n. of_nat (rnd k mod 256) = b) \<longrightarrow>
        (\<exists>i n'. RegisterFinalizedChannel rnd ch (bs, n) =
                  Some (Inr i, bs\<lparr>finalised := (finalised bs)(i \<mapsto> ch)\<rparr>, n')))"
proof (intro conjI allI impI)
  assume "len_map (finalised bs) = 256"
  then show "RegisterFinalizedChannel rnd ch (bs, n) =
          Some (Inl (ErrorsNew ''channel limit reached''), bs, n)"
    by (simp add: RegisterFinalizedChannel_def register_channel_full)
next
  fix e bs' n' assume "RegisterFinalizedChannel rnd ch (bs, n) = Some (Inl e, bs', n')"
  from RegisterFinalizedChannel_Inl[OF this]
  show "len_map (finalised bs) = 256" "e = ErrorsNew ''channel limit reached''" "bs' = bs"
    by simp_all
next
  fix i bs' n' assume r: "RegisterFinalizedChannel rnd ch (bs, n) = Some (Inr i, bs', n')"
  from RegisterFinalizedChannel_Inr[OF r]
  show "len_map (finalised bs) < 256" and nil: "is_nil_at (finalised bs) i"
    and "bs' = bs\<lparr>finalised := (finalised bs)(i \<mapsto> ch)\<rparr>"
    by simp_all
  from r obtain m' where "register_channel rnd (finalised bs) ch n = Some (Inr (i, m'), n')"
    by (auto simp: RegisterFinalizedChannel_def split: option.splits sum.splits prod.splits)
  from register_channel_draw[OF this]
  show "n < n'" "i = of_nat (rnd (n' - 1) mod 256)"
    by simp_all
  { fix j assume "n \<le> j \<and> j < n' - 1"
    with register_channel_draw[OF \<open>register_channel rnd (finalised bs) ch n = Some (Inr (i, m'), n')\<close>]
    show "\<not> is_nil_at (finalised bs) (of_nat (rnd j mod 256))" by blast }
  { fix j x assume "finalised bs j = Some (Some x)"
    with nil show "i \<noteq> j" by (auto simp: is_nil_at_def) }
next
  assume "len_map (finalised bs) \<noteq> 256"
  then show "\<exists>i. finalised bs i = None" by (rule free_key_exists)
next
  assume ne: "len_map (finalised bs) \<noteq> 256"
    and "\<exists>k\<ge>n. is_nil_at (finalised bs) (of_nat (rnd k mod 256))"
  then obtain k where "n \<le> k" "is_nil_at (finalised bs) (generateID rnd k)"
    by (auto simp: generateID_def)
  from RegisterFinalizedChannel_returns[OF ne this]
  show "\<exists>i n'. RegisterFinalizedChannel rnd ch (bs, n) =
                  Some (Inr i, bs\<lparr>finalised := (finalised bs)(i \<mapsto> ch)\<rparr>, n')" .
next
  assume ne: "len_map (finalised bs) \<noteq> 256"
    and fair: "\<forall>b::byte. \<exists>k\<ge>n. of_nat (rnd k mod 256) = b"
  from fair_draws_free[OF ne fair] obtain k where
    "n \<le> k" "is_nil_at (finalised bs) (generateID rnd k)" by blast
  from RegisterFinalizedChannel_returns[OF ne this]
  show "\<exists>i n'. RegisterFinalizedChannel rnd ch (bs, n) =
                  Some (Inr i, bs\<lparr>finalised := (finalised bs)(i \<mapsto> ch)\<rparr>, n')" .
qed

text \<open>
  C10.  Each registration function returns the error \<open>channel limit reached\<close> exactly
  when the map of its kind already holds 256 channels, and then changes nothing.  A map
  keyed by a byte never holds more than 256 entries.  A returned ID is a byte: it is
  the first draw of the random source (the value of \<^verbatim>\<open>rand.Intn(256)\<close>, as a byte)
  under which no channel is stored, so it differs from the ID of every channel that is
  registered, and the channel is stored under it.  When fewer than 256 are registered
  a free ID exists, and the call returns as soon as the source draws a byte that holds
  no channel; it does so whenever every byte value is drawn again at some time.
\<close>

theorem register_channel_limit_256:
  fixes bs :: "('c, 'f) BlockState"
  shows "len_map (imported bs) \<le> 256 \<and> len_map (finalised bs) \<le> 256
   \<and> ((len_map (imported bs) = 256 \<longrightarrow>
        RegisterImportedChannel rnd c (bs, n) =
          Some (Inl (ErrorsNew ''channel limit reached''), bs, n))
   \<and> (\<forall>e bs' n'. RegisterImportedChannel rnd c (bs, n) = Some (Inl e, bs', n') \<longrightarrow>
        len_map (imported bs) = 256 \<and> e = ErrorsNew ''channel limit reached'' \<and> bs' = bs)
   \<and> (\<forall>i bs' n'. RegisterImportedChannel rnd c (bs, n) = Some (Inr i, bs', n') \<longrightarrow>
        len_map (imported bs) < 256 \<and> is_nil_at (imported bs) i
        \<and> bs' = bs\<lparr>imported := (imported bs)(i \<mapsto> c)\<rparr>
        \<and> n < n' \<and> i = of_nat (rnd (n' - 1) mod 256)
        \<and> (\<forall>j. n \<le> j \<and> j < n' - 1 \<longrightarrow> \<not> is_nil_at (imported bs) (of_nat (rnd j mod 256)))
        \<and> (\<forall>j x. imported bs j = Some (Some x) \<longrightarrow> i \<noteq> j))
   \<and> (len_map (imported bs) \<noteq> 256 \<longrightarrow> (\<exists>i. imported bs i = None))
   \<and> (len_map (imported bs) \<noteq> 256 \<longrightarrow>
        (\<exists>k\<ge>n. is_nil_at (imported bs) (of_nat (rnd k mod 256))) \<longrightarrow>
        (\<exists>i n'. RegisterImportedChannel rnd c (bs, n) =
                  Some (Inr i, bs\<lparr>imported := (imported bs)(i \<mapsto> c)\<rparr>, n')))
   \<and> (len_map (imported bs) \<noteq> 256 \<longrightarrow>
        (\<forall>b::byte. \<exists>k\<ge>n. of_nat (rnd k mod 256) = b) \<longrightarrow>
        (\<exists>i n'. RegisterImportedChannel rnd c (bs, n) =
                  Some (Inr i, bs\<lparr>imported := (imported bs)(i \<mapsto> c)\<rparr>, n'))))
   \<and> ((len_map (finalised bs) = 256 \<longrightarrow>
        RegisterFinalizedChannel rnd f (bs, n) =
          Some (Inl (ErrorsNew ''channel limit reached''), bs, n))
   \<and> (\<forall>e bs' n'. RegisterFinalizedChannel rnd f (bs, n) = Some (Inl e, bs', n') \<longrightarrow>
        len_map (finalised bs) = 256 \<and> e = ErrorsNew ''channel limit reached'' \<and> bs' = bs)
   \<and> (\<forall>i bs' n'. RegisterFinalizedChannel rnd f (bs, n) = Some (Inr i, bs', n') \<longrightarrow>
        len_map (finalised bs) < 256 \<and> is_nil_at (finalised bs) i
        \<and> bs' = bs\<lparr>finalised := (finalised bs)(i \<mapsto> f)\<rparr>
        \<and> n < n' \<and> i = of_nat (rnd (n' - 1) mod 256)
        \<and> (\<forall>j. n \<le> j \<and> j < n' - 1 \<longrightarrow> \<not> is_nil_at (finalised bs) (of_nat (rnd j mod 256)))
        \<and> (\<forall>j x. finalised bs j = Some (Some x) \<longrightarrow> i \<noteq> j))
   \<and> (len_map (finalised bs) \<noteq> 256 \<longrightarrow> (\<exists>i. finalised bs i = None))
   \<and> (len_map (finalised bs) \<noteq> 256 \<longrightarrow>
        (\<exists>k\<ge>n. is_nil_at (finalised bs) (of_nat (rnd k mod 256))) \<longrightarrow>
        (\<exists>i n'. RegisterFinalizedChannel rnd f (bs, n) =
                  Some (Inr i, bs\<lparr>finalised := (finalised bs)(i \<mapsto> f)\<rparr>, n')))
   \<and> (len_map (finalised bs) \<noteq> 256 \<longrightarrow>
        (\<forall>b::byte. \<exists>k\<ge>n. of_nat (rnd k mod 256) = b) \<longrightarrow>
        (\<exists>i n'. RegisterFinalizedChannel rnd f (bs, n) =
                  Some (Inr i, bs\<lparr>finalised := (finalised bs)(i \<mapsto> f)\<rparr>, n'))))"
proof -
  have 1: "len_map (imported bs) \<le> 256" "len_map (finalised bs) \<le> 256"
    by (rule len_map_le_256)+
  show ?thesis
    by (rule conjI[OF 1(1) conjI[OF 1(2) conjI[OF RegisterImportedChannel_all
          RegisterFinalizedChannel_all]]])
qed


theorem register_channel_limit_256_witness:
  "len_map (finalised \<lparr>imported = [0 \<mapsto> Some (), 1 \<mapsto> Some ()],
                       finalised = (\<lambda>_. Some (Some ()))\<rparr>) = 256
   \<and> RegisterFinalizedChannel (\<lambda>k. k) (Some ())
        (\<lparr>imported = [0 \<mapsto> Some (), 1 \<mapsto> Some ()], finalised = (\<lambda>_. Some (Some ()))\<rparr>, 0) =
      Some (Inl (ErrorsNew ''channel limit reached''),
            \<lparr>imported = [0 \<mapsto> Some (), 1 \<mapsto> Some ()], finalised = (\<lambda>_. Some (Some ()))\<rparr>, 0)
   \<and> len_map (imported \<lparr>imported = [0 \<mapsto> Some (), 1 \<mapsto> Some ()],
                          finalised = (\<lambda>_. Some (Some ()))\<rparr>) \<noteq> 256
   \<and> (\<forall>b::byte. \<exists>k\<ge>(0::nat). of_nat (k mod 256) = b)
   \<and> RegisterImportedChannel (\<lambda>k. k) (Some ())
        (\<lparr>imported = [0 \<mapsto> Some (), 1 \<mapsto> Some ()], finalised = (\<lambda>_. Some (Some ()))\<rparr>, 0) =
      Some (Inr 2,
            \<lparr>imported = [0 \<mapsto> Some (), 1 \<mapsto> Some (), 2 \<mapsto> Some ()],
               finalised = (\<lambda>_. Some (Some ()))\<rparr>, 3)"
proof -
  let ?m = "[0 \<mapsto> Some (), 1 \<mapsto> Some ()] :: byte \<rightharpoonup> unit option"
  let ?bs = "\<lparr>imported = ?m, finalised = (\<lambda>_::byte. Some (Some ()))\<rparr>"
  note T = register_channel_limit_256[of ?bs "\<lambda>k. k" "Some ()" 0 "Some ()"]
  note TI = T[THEN conjunct2, THEN conjunct2, THEN conjunct1]
  note TF = T[THEN conjunct2, THEN conjunct2, THEN conjunct2]
  have full: "len_map (finalised ?bs) = 256"
    by (simp add: len_map_def dom_def card_word)
  have few: "len_map (imported ?bs) \<noteq> 256"
    by (simp add: len_map_def)
  have fair: "\<forall>b::byte. \<exists>k\<ge>(0::nat). of_nat (k mod 256) = b"
  proof
    fix b :: byte
    have "unat b < 256" using unsigned_less[of b, where 'a = nat] by simp
    then have "of_nat (unat b mod 256) = b" by simp
    then show "\<exists>k\<ge>(0::nat). of_nat (k mod 256) = b" by blast
  qed
  from TF[THEN conjunct1] full
  have r1: "RegisterFinalizedChannel (\<lambda>k. k) (Some ()) (?bs, 0) =
      Some (Inl (ErrorsNew ''channel limit reached''), ?bs, 0)" by (rule mp)
  note ret = TI[THEN conjunct2, THEN conjunct2, THEN conjunct2, THEN conjunct2, THEN conjunct2]
  from ret[THEN mp, THEN mp, OF few fair] obtain i n' where
    r2: "RegisterImportedChannel (\<lambda>k. k) (Some ()) (?bs, 0) =
        Some (Inr i, ?bs\<lparr>imported := (imported ?bs)(i \<mapsto> Some ())\<rparr>, n')" by blast
  note inr = TI[THEN conjunct2, THEN conjunct2, THEN conjunct1, rule_format, OF r2]
  have sel: "imported ?bs = ?m" by simp
  note inr' = inr[unfolded sel]
  have nil: "is_nil_at ?m i" by (rule inr'[THEN conjunct2, THEN conjunct1])
  have pos: "0 < n'"
    by (rule inr'[THEN conjunct2, THEN conjunct2, THEN conjunct2, THEN conjunct1])
  have i: "i = of_nat ((n' - 1) mod 256)"
    by (rule inr'[THEN conjunct2, THEN conjunct2, THEN conjunct2, THEN conjunct2, THEN conjunct1])
  have first: "\<forall>j. 0 \<le> j \<and> j < n' - 1 \<longrightarrow> \<not> is_nil_at ?m (of_nat (j mod 256))"
    by (rule inr'[THEN conjunct2, THEN conjunct2, THEN conjunct2, THEN conjunct2, THEN conjunct2,
          THEN conjunct1])
  have "is_nil_at ?m (of_nat (2 mod 256))" by (simp add: is_nil_at_def)
  with first have le: "n' - 1 \<le> 2" by (metis le0 not_le_imp_less)
  have n0: "n' - 1 \<noteq> 0" using nil i by (auto simp: is_nil_at_def)
  have n1: "n' - 1 \<noteq> 1" using nil i by (auto simp: is_nil_at_def)
  from le n0 n1 have two: "n' - 1 = 2" by arith
  with pos have n': "n' = 3" by arith
  have i2: "i = 2" unfolding i two by simp
  have upd: "?bs\<lparr>imported := (imported ?bs)(2 \<mapsto> Some ())\<rparr> =
      \<lparr>imported = [0 \<mapsto> Some (), 1 \<mapsto> Some (), 2 \<mapsto> Some ()],
       finalised = (\<lambda>_. Some (Some ()))\<rparr>" by simp
  have r3: "RegisterImportedChannel (\<lambda>k. k) (Some ()) (?bs, 0) =
      Some (Inr 2, \<lparr>imported = [0 \<mapsto> Some (), 1 \<mapsto> Some (), 2 \<mapsto> Some ()],
               finalised = (\<lambda>_. Some (Some ()))\<rparr>, 3)"
    using r2[unfolded i2 n'] unfolding upd .
  have full': "len_map (finalised ?bs) = 256" by (rule full)
  show ?thesis
    apply (intro conjI)
    apply (rule full)
    apply (rule r1)
    apply (rule few)
    apply (rule fair)
    apply (rule r3)
    done
qed

subsection \<open>The seal of a built block\<close>

lemma buildBlockPreDigest_Inr:
  assumes "buildBlockPreDigest e slot = Inr pre"
  shows "\<exists>output prf. slotToProof e (slot_number slot) = Some (output, prf)
     \<and> pre = PreRuntimeDigest (BabeEngineID e)
         (encodeBabeHeader e \<lparr>pd_authorityIndex = authorityIndex e,
            pd_slotNumber = slot_number slot, pd_vrfOutput = output, pd_vrfProof = prf\<rparr>)"
  using assms
  by (auto simp: buildBlockPreDigest_def buildBlockBABEPrimaryPreDigest_def
      split: sum.splits option.splits)

lemma buildBlockSeal_Inr:
  assumes "buildBlockSeal e header = Inr seal"
  shows "\<exists>encHeader hash sig. headerEncode e header = Inr encHeader
     \<and> Blake2bHash e encHeader = Inr hash \<and> keypairSign e (Rep_hash32 hash) = Inr sig
     \<and> seal = SealDigest (BabeEngineID e) sig"
  using assms by (auto simp: buildBlockSeal_def split: sum.splits)

lemma seal_header_Inr:
  assumes "seal_header e parent pre fh = Inr header"
  shows "\<exists>encHeader hash sig.
       headerEncode e (fh\<lparr>ParentHash := headerHash e parent, Number := Number parent + 1,
                          Digest := Digest fh @ [pre]\<rparr>) = Inr encHeader
     \<and> Blake2bHash e encHeader = Inr hash \<and> keypairSign e (Rep_hash32 hash) = Inr sig
     \<and> header = fh\<lparr>ParentHash := headerHash e parent, Number := Number parent + 1,
                     Digest := Digest fh @ [pre, SealDigest (BabeEngineID e) sig]\<rparr>"
proof -
  let ?h = "fh\<lparr>ParentHash := headerHash e parent, Number := Number parent + 1,
                          Digest := Digest fh @ [pre]\<rparr>"
  from assms obtain seal where s: "buildBlockSeal e ?h = Inr seal"
    and h: "header = ?h\<lparr>Digest := Digest ?h @ [seal]\<rparr>"
    by (auto simp: seal_header_def Let_def split: sum.splits)
  from buildBlockSeal_Inr[OF s] h show ?thesis by auto
qed

lemma buildBlock_Inr:
  assumes "buildBlock e parent slot w = (Inr block, w')"
  shows "\<exists>pre rt rt' fh. buildBlockPreDigest e slot = Inr pre
     \<and> FinalizeBlock e rt = (Inr fh, rt')
     \<and> seal_header e parent pre fh = Inr (Block_Header block)"
  using assms unfolding buildBlock_def
  by (auto split: sum.splits prod.splits option.splits) blast

text \<open>
  C4.  A block that \<^verbatim>\<open>buildBlock\<close> returns was built in a slot the producer holds a
  proof for, and its digest is the digest of the header that \<^verbatim>\<open>FinalizeBlock\<close> returned,
  followed by the BABE pre-runtime digest and then, last, one seal.  The data of the seal
  is the signature over the Blake2b hash of the encoding of the header as it stood
  before the seal was appended (pre-digest in, seal not yet in).
\<close>

theorem built_block_ends_with_one_seal:
  assumes "buildBlock e parent slot w = (Inr block, w')"
  shows "\<exists>output prf rt rt' fh encHeader hash sig.
       slotToProof e (slot_number slot) = Some (output, prf)
     \<and> FinalizeBlock e rt = (Inr fh, rt')
     \<and> (let pre = PreRuntimeDigest (BabeEngineID e)
                    (encodeBabeHeader e \<lparr>pd_authorityIndex = authorityIndex e,
                       pd_slotNumber = slot_number slot, pd_vrfOutput = output,
                       pd_vrfProof = prf\<rparr>);
              seal = SealDigest (BabeEngineID e) sig;
              unsealed = fh\<lparr>ParentHash := headerHash e parent, Number := Number parent + 1,
                            Digest := Digest fh @ [pre]\<rparr>
          in headerEncode e unsealed = Inr encHeader
           \<and> Blake2bHash e encHeader = Inr hash
           \<and> keypairSign e (Rep_hash32 hash) = Inr sig
           \<and> Block_Header block = unsealed\<lparr>Digest := Digest unsealed @ [seal]\<rparr>
           \<and> Digest (Block_Header block) = Digest fh @ [pre, seal]
           \<and> last (Digest (Block_Header block)) = seal
           \<and> last (butlast (Digest (Block_Header block))) = pre)"
proof -
  from buildBlock_Inr[OF assms] obtain pre rt rt' fh where
    p: "buildBlockPreDigest e slot = Inr pre" and f: "FinalizeBlock e rt = (Inr fh, rt')"
    and s: "seal_header e parent pre fh = Inr (Block_Header block)" by blast
  from buildBlockPreDigest_Inr[OF p] obtain outp vprf where
    o: "slotToProof e (slot_number slot) = Some (outp, vprf)"
    and pre: "pre = PreRuntimeDigest (BabeEngineID e)
         (encodeBabeHeader e \<lparr>pd_authorityIndex = authorityIndex e,
            pd_slotNumber = slot_number slot, pd_vrfOutput = outp, pd_vrfProof = vprf\<rparr>)"
    by blast
  from seal_header_Inr[OF s] obtain encHeader hash sig where
    e: "headerEncode e (fh\<lparr>ParentHash := headerHash e parent, Number := Number parent + 1,
                          Digest := Digest fh @ [pre]\<rparr>) = Inr encHeader"
    and b: "Blake2bHash e encHeader = Inr hash" and k: "keypairSign e (Rep_hash32 hash) = Inr sig"
    and h: "Block_Header block = fh\<lparr>ParentHash := headerHash e parent,
              Number := Number parent + 1,
              Digest := Digest fh @ [pre, SealDigest (BabeEngineID e) sig]\<rparr>"
    by blast
  show ?thesis
    apply (rule exI[of _ outp], rule exI[of _ vprf], rule exI[of _ rt], rule exI[of _ rt'])
    apply (rule exI[of _ fh], rule exI[of _ encHeader], rule exI[of _ hash], rule exI[of _ sig])
    using o f e b k h pre by (simp add: Let_def butlast_append)
qed


theorem built_block_ends_with_one_seal_witness:
  "\<exists>block w'. buildBlock demo_env demo_header demo_slot demo_world = (Inr block, w')
     \<and> Digest (Block_Header block) =
         [ConsensusDigest [1] [2], PreRuntimeDigest [66, 65, 66, 69] [1, 2],
          SealDigest [66, 65, 66, 69] (replicate 32 0)]
     \<and> (\<exists>fh pre sig rt rt'. FinalizeBlock demo_env rt = (Inr fh, rt')
           \<and> Digest (Block_Header block) = Digest fh @ [pre, SealDigest (BabeEngineID demo_env) sig]
           \<and> last (butlast (Digest (Block_Header block))) = pre)"
proof -
  let ?B = "\<lparr>Block_Header =
        \<lparr>ParentHash = zero_hash, Number = 1, StateRoot = zero_hash,
           ExtrinsicsRoot = zero_hash,
           Digest =
             [ConsensusDigest [1] [2],
              PreRuntimeDigest [66, 65, 66, 69] [1, 2],
              SealDigest [66, 65, 66, 69] (replicate 32 0)]\<rparr>,
        Block_Body = [0, 0, 0, 0, 1, 7]\<rparr>"
  let ?W = "\<lparr>rt_state = 4, queue = [], clock_reads = 6\<rparr> :: nat world"
  have rep: "Rep_hash32 zero_hash = replicate 32 0"
    by (simp add: zero_hash_def Abs_hash32_inverse)
  have run: "buildBlock demo_env demo_header demo_slot demo_world = (Inr ?B, ?W)"
    by (simp add: demo_env_def demo_slot_def demo_world_def demo_queue_def demo_header_def
        demo_determineErr_def buildBlock_def buildBlockInherents_def inherent_extrinsics_def
        inherent_data_def Let_def buildBlockPreDigest_def buildBlockBABEPrimaryPreDigest_def
        buildBlockExtrinsics_def hasSlotEnded_def seal_header_def buildBlockSeal_def
        extrinsicsToBody_def rep)
  from built_block_ends_with_one_seal[OF run] obtain outp vprf rt rt' fh encHeader hash sig where
    f: "FinalizeBlock demo_env rt = (Inr fh, rt')" and
    d: "Digest (Block_Header ?B) = Digest fh @
          [PreRuntimeDigest (BabeEngineID demo_env)
             (encodeBabeHeader demo_env \<lparr>pd_authorityIndex = authorityIndex demo_env,
                pd_slotNumber = slot_number demo_slot, pd_vrfOutput = outp, pd_vrfProof = vprf\<rparr>),
           SealDigest (BabeEngineID demo_env) sig]" and
    l: "last (butlast (Digest (Block_Header ?B))) =
          PreRuntimeDigest (BabeEngineID demo_env)
             (encodeBabeHeader demo_env \<lparr>pd_authorityIndex = authorityIndex demo_env,
                pd_slotNumber = slot_number demo_slot, pd_vrfOutput = outp, pd_vrfProof = vprf\<rparr>)"
    unfolding Let_def by blast
  have "Digest (Block_Header ?B) =
         [ConsensusDigest [1] [2], PreRuntimeDigest [66, 65, 66, 69] [1, 2],
          SealDigest [66, 65, 66, 69] (replicate 32 0)]" by simp
  with run f d l show ?thesis by blast
qed

subsection \<open>Extrinsics from the queue\<close>

lemma kept_of_Nil: "kept_of e [] rt = []"
  by (simp add: kept_of_def)

lemma kept_of_Cons:
  "kept_of e (t # ts) rt = (if keeps e t rt then [t] else []) @ kept_of e ts (state_after e rt t)"
  by (simp add: kept_of_def)

lemma subseq_kept_of: "subseq (kept_of e ts rt) ts"
  by (induction ts arbitrary: rt) (auto simp: kept_of_Nil kept_of_Cons)

lemma kept_of_applied:
  "t \<in> set (kept_of e ts rt) \<Longrightarrow> \<exists>x s. Extrinsic t = Some x \<and> stays_in_block (application e x s)"
proof (induction ts arbitrary: rt)
  case Nil
  then show ?case by (simp add: kept_of_Nil)
next
  case (Cons a ts)
  then show ?case
    by (auto simp: kept_of_Cons keeps_def split: if_splits option.splits)
qed

lemma kept_of_always:
  assumes "t \<in> set ts" and "Extrinsic t = Some x" and "\<forall>s. stays_in_block (application e x s)"
  shows "t \<in> set (kept_of e ts rt)"
  using assms(1)
proof (induction ts arbitrary: rt)
  case Nil
  then show ?case by simp
next
  case (Cons a ts)
  then show ?case using assms(2,3)
    by (auto simp: kept_of_Cons keeps_def)
qed

lemma drain_spec_stop:
  assumes "q = [] \<or> hasSlotEnded slot (wall_clock e n)"
  shows "drain_spec e slot q rt n inc inc q rt (Suc n)"
  unfolding drain_spec_def
  using assms by (intro exI[of _ 0]) (auto simp: kept_of_Nil)

lemma drain_spec_step:
  assumes rec: "drain_spec e slot rest (state_after e rt txn) (Suc n)
                  (inc @ (if keeps e txn rt then [txn] else [])) inc' q' rt' n'"
    and live: "\<not> hasSlotEnded slot (wall_clock e n)"
  shows "drain_spec e slot (txn # rest) rt n inc inc' q' rt' n'"
proof -
  let ?pre = "if keeps e txn rt then [txn] else []"
  from rec obtain k where
    k: "k \<le> length rest" and q: "q' = drop k rest"
    and n: "n' = Suc (Suc n + k)"
    and l: "\<forall>i<k. \<not> hasSlotEnded slot (wall_clock e (Suc n + i))"
    and s: "k = length rest \<or> hasSlotEnded slot (wall_clock e (Suc n + k))"
    and i: "inc' = (inc @ ?pre) @ kept_of e (take k rest) (state_after e rt txn)"
    and r: "rt' = foldl (state_after e) (state_after e rt txn) (take k rest)"
    unfolding drain_spec_def by blast
  have l': "\<forall>i<Suc k. \<not> hasSlotEnded slot (wall_clock e (n + i))"
  proof (intro allI impI)
    fix i assume "i < Suc k"
    then show "\<not> hasSlotEnded slot (wall_clock e (n + i))"
      using live l by (cases i) auto
  qed
  show ?thesis
    unfolding drain_spec_def
    apply (rule exI[of _ "Suc k"])
    using k i q n l' s r by (simp add: kept_of_Cons)
qed

lemma drain_queue_spec:
  assumes "drain_queue e slot q rt n inc = (inc', q', rt', n')"
  shows "drain_spec e slot q rt n inc inc' q' rt' n'"
  using assms
proof (induction q arbitrary: rt n inc)
  case Nil
  then show ?case using drain_spec_stop[of "[]" slot e n rt inc] by auto
next
  case (Cons txn rest)
  show ?case
  proof (cases "hasSlotEnded slot (wall_clock e n)")
    case True
    with Cons.prems show ?thesis
      using drain_spec_stop[of "txn # rest" slot e n rt inc] by auto
  next
    case live: False
    from live Cons.prems
    have "drain_queue e slot rest (state_after e rt txn) (Suc n)
            (inc @ (if keeps e txn rt then [txn] else [])) = (inc', q', rt', n')"
      by (auto simp: keeps_def state_after_def application_def stays_in_block_def
          split: sum.splits option.splits if_splits prod.splits)
    from drain_spec_step[OF Cons.IH[OF this] live] show ?thesis .
  qed
qed


text \<open>
  C5.  A run of \<^verbatim>\<open>buildBlockExtrinsics\<close> pops a prefix of the queue, one transaction per
  clock reading, and stops exactly when the slot has ended at a reading or the queue is
  empty.  Of the popped transactions it includes, in their order, exactly those whose
  application (in the runtime state the earlier ones left) ended without error or with
  a dispatch-outcome error.  So a transaction whose application yields a dispatch-outcome
  error is included; one whose application fails in any other way (the call fails, or
  the answer is another error) is left out and the run goes on with the next one; one
  without an extrinsic is skipped.
\<close>

theorem queue_drain_keeps_dispatch_errors:
  assumes "buildBlockExtrinsics e slot w = (included, w')"
  shows "\<exists>k popped. k \<le> length (queue w) \<and> popped = take k (queue w)
     \<and> queue w' = drop k (queue w)
     \<and> clock_reads w' = Suc (clock_reads w + k)
     \<and> (\<forall>i<k. \<not> hasSlotEnded slot (wall_clock e (clock_reads w + i)))
     \<and> (k = length (queue w) \<or> hasSlotEnded slot (wall_clock e (clock_reads w + k)))
     \<and> included = kept_of e popped (rt_state w)
     \<and> rt_state w' = foldl (state_after e) (rt_state w) popped
     \<and> subseq included popped
     \<and> (\<forall>t\<in>set popped. \<forall>x. Extrinsic t = Some x \<longrightarrow>
           (\<forall>rt. application e x rt = DispatchFailure) \<longrightarrow> t \<in> set included)
     \<and> (\<forall>t\<in>set popped. \<forall>x. Extrinsic t = Some x \<longrightarrow>
           (\<forall>rt. application e x rt = Applied) \<longrightarrow> t \<in> set included)
     \<and> (\<forall>t\<in>set popped. \<forall>x. Extrinsic t = Some x \<longrightarrow>
           (\<forall>rt. application e x rt = CallFailed \<or> application e x rt = Rejected) \<longrightarrow>
           t \<notin> set included)
     \<and> (\<forall>t\<in>set popped. Extrinsic t = None \<longrightarrow> t \<notin> set included)"
proof -
  from assms obtain q' rt' n' where
    d: "drain_queue e slot (queue w) (rt_state w) (clock_reads w) [] = (included, q', rt', n')"
    and w': "w' = \<lparr>rt_state = rt', queue = q', clock_reads = n'\<rparr>"
    by (auto simp: buildBlockExtrinsics_def split: prod.splits)
  from drain_queue_spec[OF d] obtain k where
    k: "k \<le> length (queue w)" and q: "q' = drop k (queue w)"
    and n: "n' = Suc (clock_reads w + k)"
    and l: "\<forall>i<k. \<not> hasSlotEnded slot (wall_clock e (clock_reads w + i))"
    and s: "k = length (queue w) \<or> hasSlotEnded slot (wall_clock e (clock_reads w + k))"
    and i: "included = kept_of e (take k (queue w)) (rt_state w)"
    and r: "rt' = foldl (state_after e) (rt_state w) (take k (queue w))"
    unfolding drain_spec_def by auto
  let ?p = "take k (queue w)"
  have sub: "subseq included ?p" unfolding i by (rule subseq_kept_of)
  have a: "\<forall>t\<in>set ?p. \<forall>x. Extrinsic t = Some x \<longrightarrow>
           (\<forall>rt. application e x rt = DispatchFailure) \<longrightarrow> t \<in> set included"
    unfolding i using kept_of_always[of _ ?p _ e "rt_state w"]
    by (simp add: stays_in_block_def)
  have b: "\<forall>t\<in>set ?p. \<forall>x. Extrinsic t = Some x \<longrightarrow>
           (\<forall>rt. application e x rt = Applied) \<longrightarrow> t \<in> set included"
    unfolding i using kept_of_always[of _ ?p _ e "rt_state w"]
    by (simp add: stays_in_block_def)
  have c: "\<forall>t\<in>set ?p. \<forall>x. Extrinsic t = Some x \<longrightarrow>
           (\<forall>rt. application e x rt = CallFailed \<or> application e x rt = Rejected) \<longrightarrow>
           t \<notin> set included"
  proof (intro ballI allI impI notI)
    fix t x assume x: "Extrinsic t = Some x"
      and bad: "\<forall>rt. application e x rt = CallFailed \<or> application e x rt = Rejected"
      and "t \<in> set included"
    then have "t \<in> set (kept_of e ?p (rt_state w))" by (simp add: i)
    from kept_of_applied[OF this] obtain y s where
      y: "Extrinsic t = Some y" and st: "stays_in_block (application e y s)" by blast
    from x y have "y = x" by simp
    with st have "application e x s = Applied \<or> application e x s = DispatchFailure"
      by (simp add: stays_in_block_def)
    moreover from bad have "application e x s = CallFailed \<or> application e x s = Rejected" ..
    ultimately show False by auto
  qed
  have d': "\<forall>t\<in>set ?p. Extrinsic t = None \<longrightarrow> t \<notin> set included"
  proof (intro ballI impI notI)
    fix t assume x: "Extrinsic t = None" and "t \<in> set included"
    then have "t \<in> set (kept_of e ?p (rt_state w))" by (simp add: i)
    from kept_of_applied[OF this] x show False by auto
  qed
  have q1: "queue w' = drop k (queue w)" using w' q by simp
  have n1: "clock_reads w' = Suc (clock_reads w + k)" using w' n by simp
  have r1: "rt_state w' = foldl (state_after e) (rt_state w) ?p" using w' r by simp
  show ?thesis
    apply (rule exI[of _ k], rule exI[of _ ?p])
    apply (intro conjI)
    apply (rule k)
    apply (rule refl)
    apply (rule q1)
    apply (rule n1)
    apply (rule l)
    apply (rule s)
    apply (rule i)
    apply (rule r1)
    apply (rule sub)
    apply (rule a)
    apply (rule b)
    apply (rule c)
    apply (rule d')
    done
qed

theorem queue_drain_keeps_dispatch_errors_witness:
  "buildBlockExtrinsics demo_env demo_slot (demo_world\<lparr>clock_reads := 2\<rparr>) =
     ([\<lparr>Extrinsic = Some [0, 0], Validity = 1\<rparr>, \<lparr>Extrinsic = Some [1, 7], Validity = 2\<rparr>],
      (\<lparr>rt_state = 3, queue = [\<lparr>Extrinsic = None, Validity = 4\<rparr>], clock_reads = 6\<rparr> :: nat world))
   \<and> (\<exists>k popped. k \<le> length (queue (demo_world\<lparr>clock_reads := 2\<rparr>)) \<and> popped = take k (queue (demo_world\<lparr>clock_reads := 2\<rparr>))
     \<and> queue (\<lparr>rt_state = 3, queue = [\<lparr>Extrinsic = None, Validity = 4\<rparr>], clock_reads = 6\<rparr> :: nat world) = drop k (queue (demo_world\<lparr>clock_reads := 2\<rparr>))
     \<and> clock_reads (\<lparr>rt_state = 3, queue = [\<lparr>Extrinsic = None, Validity = 4\<rparr>], clock_reads = 6\<rparr> :: nat world) = Suc (clock_reads (demo_world\<lparr>clock_reads := 2\<rparr>) + k)
     \<and> (\<forall>i<k. \<not> hasSlotEnded demo_slot (wall_clock demo_env (clock_reads (demo_world\<lparr>clock_reads := 2\<rparr>) + i)))
     \<and> (k = length (queue (demo_world\<lparr>clock_reads := 2\<rparr>)) \<or> hasSlotEnded demo_slot (wall_clock demo_env (clock_reads (demo_world\<lparr>clock_reads := 2\<rparr>) + k)))
     \<and> [\<lparr>Extrinsic = Some [0, 0], Validity = 1\<rparr>, \<lparr>Extrinsic = Some [1, 7], Validity = 2\<rparr>] = kept_of demo_env popped (rt_state (demo_world\<lparr>clock_reads := 2\<rparr>))
     \<and> rt_state (\<lparr>rt_state = 3, queue = [\<lparr>Extrinsic = None, Validity = 4\<rparr>], clock_reads = 6\<rparr> :: nat world) = foldl (state_after demo_env) (rt_state (demo_world\<lparr>clock_reads := 2\<rparr>)) popped
     \<and> subseq [\<lparr>Extrinsic = Some [0, 0], Validity = 1\<rparr>, \<lparr>Extrinsic = Some [1, 7], Validity = 2\<rparr>] popped
     \<and> (\<forall>t\<in>set popped. \<forall>x. Extrinsic t = Some x \<longrightarrow>
           (\<forall>rt. application demo_env x rt = DispatchFailure) \<longrightarrow> t \<in> set [\<lparr>Extrinsic = Some [0, 0], Validity = 1\<rparr>, \<lparr>Extrinsic = Some [1, 7], Validity = 2\<rparr>])
     \<and> (\<forall>t\<in>set popped. \<forall>x. Extrinsic t = Some x \<longrightarrow>
           (\<forall>rt. application demo_env x rt = Applied) \<longrightarrow> t \<in> set [\<lparr>Extrinsic = Some [0, 0], Validity = 1\<rparr>, \<lparr>Extrinsic = Some [1, 7], Validity = 2\<rparr>])
     \<and> (\<forall>t\<in>set popped. \<forall>x. Extrinsic t = Some x \<longrightarrow>
           (\<forall>rt. application demo_env x rt = CallFailed \<or> application demo_env x rt = Rejected) \<longrightarrow>
           t \<notin> set [\<lparr>Extrinsic = Some [0, 0], Validity = 1\<rparr>, \<lparr>Extrinsic = Some [1, 7], Validity = 2\<rparr>])
     \<and> (\<forall>t\<in>set popped. Extrinsic t = None \<longrightarrow> t \<notin> set [\<lparr>Extrinsic = Some [0, 0], Validity = 1\<rparr>, \<lparr>Extrinsic = Some [1, 7], Validity = 2\<rparr>]))"
proof -
  have run: "buildBlockExtrinsics demo_env demo_slot (demo_world\<lparr>clock_reads := 2\<rparr>) =
     ([\<lparr>Extrinsic = Some [0, 0], Validity = 1\<rparr>, \<lparr>Extrinsic = Some [1, 7], Validity = 2\<rparr>],
      (\<lparr>rt_state = 3, queue = [\<lparr>Extrinsic = None, Validity = 4\<rparr>], clock_reads = 6\<rparr> :: nat world))"
    by (simp add: demo_env_def demo_slot_def demo_world_def demo_queue_def demo_determineErr_def
        buildBlockExtrinsics_def hasSlotEnded_def)
  show ?thesis
    by (rule conjI[OF run queue_drain_keeps_dispatch_errors[OF run]])
qed

subsection \<open>Inherents\<close>


lemma apply_inherents_None_iff:
  "fst (apply_inherents e exts rt) = None \<longleftrightarrow> all_inherents_ok e exts rt"
proof (induction exts arbitrary: rt)
  case Nil
  then show ?case by (simp add: all_inherents_ok_def)
next
  case (Cons x xs)
  show ?case
  proof (cases "inherent_ok e x rt")
    case True
    then obtain inp rt' where enc: "scaleEncodeBytes e x = Inr inp"
      and ap: "ApplyExtrinsic e inp rt = (Inr [0, 0], rt')"
      by (auto simp: inherent_ok_def split: sum.splits) (metis prod.collapse)
    then have "apply_inherents e (x # xs) rt = apply_inherents e xs rt'" by simp
    moreover from enc ap have "inherent_state_after e rt x = rt'"
      by (simp add: inherent_state_after_def)
    ultimately show ?thesis using True Cons.IH[of rt']
      by (simp add: all_inherents_ok_def)
  next
    case False
    then have "fst (apply_inherents e (x # xs) rt) \<noteq> None"
      by (auto simp: inherent_ok_def split: sum.splits prod.splits)
    with False show ?thesis by (simp add: all_inherents_ok_def)
  qed
qed


lemma buildBlockInherents_after_preparation:
  assumes "inherent_extrinsics e slot w = (Inr exts, w1)"
  shows "(all_inherents_ok e exts (rt_state w1) \<longrightarrow>
              (\<exists>rt2. buildBlockInherents e slot w = (Inr exts, w1\<lparr>rt_state := rt2\<rparr>)))
         \<and> (\<not> all_inherents_ok e exts (rt_state w1) \<longrightarrow>
              (\<exists>er rt2. buildBlockInherents e slot w = (Inl er, w1\<lparr>rt_state := rt2\<rparr>)))
         \<and> (\<forall>xs. fst (buildBlockInherents e slot w) = Inr xs \<longrightarrow> xs = exts)"
proof -
  obtain r rt' where a: "apply_inherents e exts (rt_state w1) = (r, rt')"
    by (cases "apply_inherents e exts (rt_state w1)")
  have iff: "r = None \<longleftrightarrow> all_inherents_ok e exts (rt_state w1)"
    using apply_inherents_None_iff[of e exts "rt_state w1"] a by simp
  show ?thesis
  proof (cases r)
    case None
    with assms a have "buildBlockInherents e slot w = (Inr exts, w1\<lparr>rt_state := rt'\<rparr>)"
      by (simp add: buildBlockInherents_def)
    with iff None show ?thesis by auto
  next
    case (Some er)
    with assms a have "buildBlockInherents e slot w = (Inl er, w1\<lparr>rt_state := rt'\<rparr>)"
      by (simp add: buildBlockInherents_def)
    with iff Some show ?thesis by auto
  qed
qed

text \<open>
  C6 (as amended).  \<^verbatim>\<open>buildBlockInherents\<close> reads the clock once, sets the timestamp
  inherent to the clock reading in seconds, the babe-slot inherent to the slot number
  and the finalised-number inherent to the number of the finalised header, encodes the
  inherent data, calls \<^verbatim>\<open>BlockBuilder_inherent_extrinsics\<close> on the encoding and decodes
  its answer.  The first of these steps to fail gives the error of the build.  When
  all succeed, the build returns exactly the decoded inherents if every one of them,
  applied in the runtime state the earlier ones left, encodes and is answered by the
  two bytes \<open>0, 0\<close>, and it returns an error otherwise.
\<close>

theorem inherents_error_or_decoded:
  "(let ts = word_of_int (wall_clock e (clock_reads w) div 1000000000) :: 64 word;
        w1 = w\<lparr>clock_reads := Suc (clock_reads w)\<rparr>;
        result = buildBlockInherents e slot w
    in case SetInt64Inherent e (Timstap0 e) ts (NewInherentsData e) of
         Inl er \<Rightarrow> result = (Inl er, w1)
       | Inr idata1 \<Rightarrow>
      (case SetInt64Inherent e (Babeslot e) (slot_number slot) idata1 of
         Inl er \<Rightarrow> result = (Inl er, w1)
       | Inr idata2 \<Rightarrow>
      (case GetFinalizedHeader e 0 0 of
         Inl er \<Rightarrow> result = (Inl er, w1)
       | Inr fin \<Rightarrow>
      (case SetBigIntInherent e (Finalnum e) (Number fin) idata2 of
         Inl er \<Rightarrow> result = (Inl er, w1)
       | Inr idata3 \<Rightarrow>
      (case idataEncode e idata3 of
         Inl er \<Rightarrow> result = (Inl er, w1)
       | Inr ienc \<Rightarrow>
      (case InherentExtrinsics e ienc (rt_state w) of
         (Inl er, rt1) \<Rightarrow> result = (Inl er, w1\<lparr>rt_state := rt1\<rparr>)
       | (Inr inherentExts, rt1) \<Rightarrow>
      (case scaleDecodeByteArrays e inherentExts of
         Inl er \<Rightarrow> result = (Inl er, w1\<lparr>rt_state := rt1\<rparr>)
       | Inr exts \<Rightarrow>
           (all_inherents_ok e exts rt1 \<longrightarrow>
              (\<exists>rt2. result = (Inr exts, w1\<lparr>rt_state := rt2\<rparr>)))
         \<and> (\<not> all_inherents_ok e exts rt1 \<longrightarrow>
              (\<exists>er rt2. result = (Inl er, w1\<lparr>rt_state := rt2\<rparr>)))
         \<and> (\<forall>xs. fst result = Inr xs \<longrightarrow> xs = exts))))))))"
proof -
  let ?now = "wall_clock e (clock_reads w)"
  let ?w1 = "w\<lparr>clock_reads := Suc (clock_reads w)\<rparr>"
  have fail: "inherent_data e slot ?now = Inl er \<Longrightarrow>
                buildBlockInherents e slot w = (Inl er, ?w1)" for er
    by (simp add: buildBlockInherents_def inherent_extrinsics_def Let_def)
  have call_fail: "inherent_data e slot ?now = Inr ienc \<Longrightarrow>
      InherentExtrinsics e ienc (rt_state w) = (Inl er, rt1) \<Longrightarrow>
      buildBlockInherents e slot w = (Inl er, ?w1\<lparr>rt_state := rt1\<rparr>)" for ienc er rt1
    by (simp add: buildBlockInherents_def inherent_extrinsics_def Let_def)
  have prep: "inherent_data e slot ?now = Inr ienc \<Longrightarrow>
      InherentExtrinsics e ienc (rt_state w) = (Inr raw, rt1) \<Longrightarrow>
      inherent_extrinsics e slot w = (scaleDecodeByteArrays e raw, ?w1\<lparr>rt_state := rt1\<rparr>)"
    for ienc raw rt1
    by (simp add: inherent_extrinsics_def Let_def)
  have dec_fail: "inherent_data e slot ?now = Inr ienc \<Longrightarrow>
      InherentExtrinsics e ienc (rt_state w) = (Inr raw, rt1) \<Longrightarrow>
      scaleDecodeByteArrays e raw = Inl er \<Longrightarrow>
      buildBlockInherents e slot w = (Inl er, ?w1\<lparr>rt_state := rt1\<rparr>)" for ienc raw rt1 er
    using prep[of ienc raw rt1] by (simp add: buildBlockInherents_def)
  have ok: "inherent_data e slot ?now = Inr ienc \<Longrightarrow>
      InherentExtrinsics e ienc (rt_state w) = (Inr raw, rt1) \<Longrightarrow>
      scaleDecodeByteArrays e raw = Inr exts \<Longrightarrow>
      (all_inherents_ok e exts rt1 \<longrightarrow>
         (\<exists>rt2. buildBlockInherents e slot w = (Inr exts, ?w1\<lparr>rt_state := rt2\<rparr>)))
      \<and> (\<not> all_inherents_ok e exts rt1 \<longrightarrow>
         (\<exists>er rt2. buildBlockInherents e slot w = (Inl er, ?w1\<lparr>rt_state := rt2\<rparr>)))
      \<and> (\<forall>xs. fst (buildBlockInherents e slot w) = Inr xs \<longrightarrow> xs = exts)"
    for ienc raw rt1 exts
  proof -
    assume a: "inherent_data e slot ?now = Inr ienc"
      "InherentExtrinsics e ienc (rt_state w) = (Inr raw, rt1)"
      "scaleDecodeByteArrays e raw = Inr exts"
    from prep[OF a(1,2)] a(3)
    have "inherent_extrinsics e slot w = (Inr exts, ?w1\<lparr>rt_state := rt1\<rparr>)" by simp
    from buildBlockInherents_after_preparation[OF this] show ?thesis by simp
  qed
  have ok': "SetInt64Inherent e (Timstap0 e)
          (word_of_int (wall_clock e (clock_reads w) div 1000000000)) (NewInherentsData e) = Inr d1 \<Longrightarrow>
      SetInt64Inherent e (Babeslot e) (slot_number slot) d1 = Inr d2 \<Longrightarrow>
      GetFinalizedHeader e 0 0 = Inr fin \<Longrightarrow>
      SetBigIntInherent e (Finalnum e) (Number fin) d2 = Inr d3 \<Longrightarrow>
      idataEncode e d3 = Inr ienc \<Longrightarrow>
      InherentExtrinsics e ienc (rt_state w) = (Inr raw, rt1) \<Longrightarrow>
      scaleDecodeByteArrays e raw = Inr exts \<Longrightarrow>
      (all_inherents_ok e exts rt1 \<longrightarrow>
         (\<exists>rt2. buildBlockInherents e slot w = (Inr exts, ?w1\<lparr>rt_state := rt2\<rparr>)))
      \<and> (\<not> all_inherents_ok e exts rt1 \<longrightarrow>
         (\<exists>er rt2. buildBlockInherents e slot w = (Inl er, ?w1\<lparr>rt_state := rt2\<rparr>)))
      \<and> (\<forall>xs. fst (buildBlockInherents e slot w) = Inr xs \<longrightarrow> xs = exts)"
    for d1 d2 fin d3 ienc raw rt1 exts
  proof -
    assume a: "SetInt64Inherent e (Timstap0 e)
          (word_of_int (wall_clock e (clock_reads w) div 1000000000)) (NewInherentsData e) = Inr d1"
      "SetInt64Inherent e (Babeslot e) (slot_number slot) d1 = Inr d2"
      "GetFinalizedHeader e 0 0 = Inr fin"
      "SetBigIntInherent e (Finalnum e) (Number fin) d2 = Inr d3"
      "idataEncode e d3 = Inr ienc"
      and b: "InherentExtrinsics e ienc (rt_state w) = (Inr raw, rt1)"
      "scaleDecodeByteArrays e raw = Inr exts"
    from a have "inherent_data e slot ?now = Inr ienc"
      by (simp add: inherent_data_def)
    from ok[OF this b] show ?thesis .
  qed
  show ?thesis
    unfolding Let_def
    apply (simp split: sum.split prod.split
        add: fail call_fail dec_fail inherent_data_def)
    apply (intro allI impI conjI)
    using ok' apply blast
    using ok' apply blast
    using ok' apply blast
    done
qed


theorem inherents_error_or_decoded_witness:
  "SetInt64Inherent inherents_env (Timstap0 inherents_env) 5 (NewInherentsData inherents_env)
      = Inr [([1], 5)]
   \<and> SetInt64Inherent inherents_env (Babeslot inherents_env) (slot_number demo_slot) [([1], 5)]
      = Inr [([1], 5), ([2], 1)]
   \<and> GetFinalizedHeader inherents_env 0 0 = Inr (demo_header\<lparr>Number := 7\<rparr>)
   \<and> SetBigIntInherent inherents_env (Finalnum inherents_env) 7 [([1], 5), ([2], 1)]
      = Inr [([1], 5), ([2], 1), ([3], 7)]
   \<and> idataEncode inherents_env [([1], 5), ([2], 1), ([3], 7)] = Inr [1, 5, 2, 1, 3, 7]
   \<and> InherentExtrinsics inherents_env [1, 5, 2, 1, 3, 7] 0 = (Inr [1, 5, 2, 1, 3, 7], 1)
   \<and> scaleDecodeByteArrays inherents_env [1, 5, 2, 1, 3, 7] = Inr [[1, 5, 2, 1, 3, 7]]
   \<and> all_inherents_ok inherents_env [[1, 5, 2, 1, 3, 7]] 1
   \<and> (\<exists>rt2. buildBlockInherents inherents_env demo_slot demo_world =
          (Inr [[1, 5, 2, 1, 3, 7]], \<lparr>rt_state = rt2, queue = demo_queue, clock_reads = 1\<rparr>))"
proof -
  have ts: "(word_of_int (wall_clock inherents_env (clock_reads demo_world) div 1000000000) :: 64 word) = 5"
    by (simp add: inherents_env_def demo_world_def)
  have s1: "SetInt64Inherent inherents_env (Timstap0 inherents_env) 5 (NewInherentsData inherents_env)
      = Inr [([1], 5)]"
    by (simp add: inherents_env_def)
  have s2: "SetInt64Inherent inherents_env (Babeslot inherents_env) (slot_number demo_slot) [([1], 5)]
      = Inr [([1], 5), ([2], 1)]"
    by (simp add: inherents_env_def demo_slot_def)
  have fin: "GetFinalizedHeader inherents_env 0 0 = Inr (demo_header\<lparr>Number := 7\<rparr>)"
    by (simp add: inherents_env_def)
  have num: "Number (demo_header\<lparr>Number := 7\<rparr>) = 7" by simp
  have s3: "SetBigIntInherent inherents_env (Finalnum inherents_env) 7 [([1], 5), ([2], 1)]
      = Inr [([1], 5), ([2], 1), ([3], 7)]"
    by (simp add: inherents_env_def)
  have enc: "idataEncode inherents_env [([1], 5), ([2], 1), ([3], 7)] = Inr [1, 5, 2, 1, 3, 7]"
    by (simp add: inherents_env_def)
  have call: "InherentExtrinsics inherents_env [1, 5, 2, 1, 3, 7] 0 = (Inr [1, 5, 2, 1, 3, 7], 1)"
    by (simp add: inherents_env_def)
  have dec: "scaleDecodeByteArrays inherents_env [1, 5, 2, 1, 3, 7] = Inr [[1, 5, 2, 1, 3, 7]]"
    by (simp add: inherents_env_def)
  have ok: "all_inherents_ok inherents_env [[1, 5, 2, 1, 3, 7]] 1"
    by (simp add: all_inherents_ok_def inherent_ok_def inherents_env_def)
  have rt0: "rt_state demo_world = 0" by (simp add: demo_world_def)
  have w1: "demo_world\<lparr>clock_reads := Suc (clock_reads demo_world), rt_state := rt2\<rparr>
              = \<lparr>rt_state = rt2, queue = demo_queue, clock_reads = 1\<rparr>" for rt2
    by (simp add: demo_world_def)
  have "\<exists>rt2. buildBlockInherents inherents_env demo_slot demo_world =
          (Inr [[1, 5, 2, 1, 3, 7]],
           demo_world\<lparr>clock_reads := Suc (clock_reads demo_world), rt_state := rt2\<rparr>)"
    using inherents_error_or_decoded[of inherents_env demo_world demo_slot]
    unfolding Let_def ts s1 sum.case s2 fin num s3 enc rt0 call prod.case dec
    using ok by blast
  then have "\<exists>rt2. buildBlockInherents inherents_env demo_slot demo_world =
          (Inr [[1, 5, 2, 1, 3, 7]], \<lparr>rt_state = rt2, queue = demo_queue, clock_reads = 1\<rparr>)"
    unfolding w1 .
  with s1 s2 fin s3 enc call dec ok show ?thesis by (intro conjI)
qed

text \<open>
  The claim as stated fails: with no finalised header to read, the build returns an
  error although the runtime, which answers \<open>0, 0\<close> to every application, was never
  asked to apply anything (its state still counts 0 applications).
\<close>

theorem inherents_error_without_application:
  "buildBlockInherents demo_env_no_finalised demo_slot demo_world =
     (Inl (External ''finalised header not found''),
      \<lparr>rt_state = 0, queue = demo_queue, clock_reads = 1\<rparr>)
   \<and> ApplyExtrinsic demo_env_no_finalised [1, 2, 3] 0 = (Inr [0, 0], 1)"
proof -
  have d: "inherent_data demo_env_no_finalised demo_slot (wall_clock demo_env_no_finalised 0) =
             Inl (External ''finalised header not found'')"
    by (simp add: demo_env_no_finalised_def demo_env_def inherent_data_def)
  have "inherent_extrinsics demo_env_no_finalised demo_slot demo_world =
          (Inl (External ''finalised header not found''),
           \<lparr>rt_state = 0, queue = demo_queue, clock_reads = 1\<rparr>)"
    unfolding inherent_extrinsics_def Let_def by (simp add: d demo_world_def)
  then have "buildBlockInherents demo_env_no_finalised demo_slot demo_world =
     (Inl (External ''finalised header not found''),
      \<lparr>rt_state = 0, queue = demo_queue, clock_reads = 1\<rparr>)"
    by (simp add: buildBlockInherents_def)
  moreover have "ApplyExtrinsic demo_env_no_finalised [1, 2, 3] 0 = (Inr [0, 0], 1)"
    by (simp add: demo_env_no_finalised_def demo_env_def)
  ultimately show ?thesis by (intro conjI)
qed

subsection \<open>Child tries\<close>

lemma copy_to_hash_Rep: "copy_to_hash (Rep_hash32 h) = h"
proof -
  have "length (Rep_hash32 h) = 32" using Rep_hash32[of h] by simp
  then show ?thesis by (simp add: copy_to_hash_def Rep_hash32_inverse)
qed

lemma ChildStorageKeyPrefix_bytes:
  "ChildStorageKeyPrefix = [58, 99, 104, 105, 108, 100, 95, 115, 116, 111, 114, 97, 103, 101, 58, 100, 101, 102, 97, 117, 108, 116, 58]"
  by (simp add: ChildStorageKeyPrefix_def)

text \<open>
  C8.  \<^verbatim>\<open>PutChild(n, c)\<close> stores the 32 bytes of the root hash of \<open>c\<close> in the main trie
  under the key made of the 23 bytes of \<open>:child_storage:default:\<close> (58, 99, 104, ...)
  followed by \<open>n\<close>, and files \<open>c\<close> under that hash; \<^verbatim>\<open>GetChild(n)\<close> reads the main
  trie at exactly that key, fails when nothing is stored there and otherwise returns
  the child filed under the hash found there.  So, for a trie whose \<^verbatim>\<open>Get\<close> returns
  what \<^verbatim>\<open>Put\<close> stored, \<^verbatim>\<open>GetChild(n)\<close> after \<^verbatim>\<open>PutChild(n, c)\<close> returns \<open>c\<close>, whose root
  hash is the stored value.
\<close>

theorem put_child_then_get_child:
  assumes get_put: "\<And>m k v. Get (Put k v m) k = Some v"
    and put: "PutChild Hash Put t n c = Inr t'"
  shows "\<exists>h. Hash c = Inr h
     \<and> length (Rep_hash32 h) = 32
     \<and> content t' = Put ([58, 99, 104, 105, 108, 100, 95, 115, 116, 111, 114, 97, 103, 101, 58, 100, 101, 102, 97, 117, 108, 116, 58] @ n) (Rep_hash32 h) (content t)
     \<and> Get (content t') ([58, 99, 104, 105, 108, 100, 95, 115, 116, 111, 114, 97, 103, 101, 58, 100, 101, 102, 97, 117, 108, 116, 58] @ n) = Some (Rep_hash32 h)
     \<and> childTries t' = (childTries t)(h \<mapsto> Some c)
     \<and> GetChild Get t' n = Inr (Some c)
     \<and> (\<forall>u. GetChild Get u n =
           (case Get (content u) ([58, 99, 104, 105, 108, 100, 95, 115, 116, 111, 114, 97, 103, 101, 58, 100, 101, 102, 97, 117, 108, 116, 58] @ n) of
              None \<Rightarrow> Inl (ChildTrieDoesNotExist [58, 99, 104, 105, 108, 100, 95, 115, 116, 111, 114, 97, 103, 101, 58, 100, 101, 102, 97, 117, 108, 116, 58] n)
            | Some v \<Rightarrow> Inr (case childTries u (copy_to_hash v) of None \<Rightarrow> None | Some p \<Rightarrow> p)))"
proof -
  let ?key = "[58, 99, 104, 105, 108, 100, 95, 115, 116, 111, 114, 97, 103, 101, 58, 100, 101, 102, 97, 117, 108, 116, 58] :: bytes"
  have pk: "ChildStorageKeyPrefix = ?key" by (rule ChildStorageKeyPrefix_bytes)
  from put obtain h where h: "Hash c = Inr h"
    and t': "t' = Trie (Put (?key @ n) (Rep_hash32 h) (content t))
                       ((childTries t)(h \<mapsto> Some c))"
    unfolding PutChild_def Let_def pk by (auto split: sum.splits)
  have len: "length (Rep_hash32 h) = 32" using Rep_hash32[of h] by simp
  have c: "content t' = Put (?key @ n) (Rep_hash32 h) (content t)" by (simp add: t')
  have g: "Get (content t') (?key @ n) = Some (Rep_hash32 h)"
    unfolding c by (rule get_put)
  have ct: "childTries t' = (childTries t)(h \<mapsto> Some c)" by (simp add: t')
  have gc: "GetChild Get t' n = Inr (Some c)"
    unfolding GetChild_def Let_def pk g by (simp add: copy_to_hash_Rep ct)
  have all: "\<forall>u. GetChild Get u n =
           (case Get (content u) (?key @ n) of
              None \<Rightarrow> Inl (ChildTrieDoesNotExist ?key n)
            | Some v \<Rightarrow> Inr (case childTries u (copy_to_hash v) of None \<Rightarrow> None | Some p \<Rightarrow> p))"
    unfolding GetChild_def Let_def pk by simp
  show ?thesis
    apply (rule exI[of _ h])
    apply (intro conjI)
    apply (rule h)
    apply (rule len)
    apply (rule c)
    apply (rule g)
    apply (rule ct)
    apply (rule gc)
    apply (rule all)
    done
qed

theorem put_child_then_get_child_witness:
  "(\<forall>m k v. (\<lambda>m k. m k) ((\<lambda>k v m. m(k \<mapsto> v)) k v m) k = Some (v :: bytes))
   \<and> PutChild (\<lambda>_. Inr zero_hash) (\<lambda>k v m. m(k \<mapsto> v))
        (Trie Map.empty (\<lambda>_. None)) [1, 2] (Trie [[9] \<mapsto> [8]] (\<lambda>_. None)) =
      Inr (Trie [[58, 99, 104, 105, 108, 100, 95, 115, 116, 111, 114, 97, 103, 101, 58, 100, 101, 102, 97, 117, 108, 116, 58] @ [1, 2] \<mapsto> replicate 32 0]
                [zero_hash \<mapsto> Some (Trie [[9] \<mapsto> [8]] (\<lambda>_. None))])
   \<and> GetChild (\<lambda>m k. m k)
        (Trie [[58, 99, 104, 105, 108, 100, 95, 115, 116, 111, 114, 97, 103, 101, 58, 100, 101, 102, 97, 117, 108, 116, 58] @ [1, 2] \<mapsto> replicate 32 0]
              [zero_hash \<mapsto> Some (Trie [[9] \<mapsto> [8]] (\<lambda>_. None))]) [1, 2] =
      Inr (Some (Trie [[9] \<mapsto> [8 :: byte]] (\<lambda>_. None)))
   \<and> GetChild (\<lambda>m k. m k)
        (Trie [[1, 2] \<mapsto> replicate 32 0]
              [zero_hash \<mapsto> Some (Trie [[9] \<mapsto> [8 :: byte]] (\<lambda>_. None))]) [1, 2] =
      Inl (ChildTrieDoesNotExist [58, 99, 104, 105, 108, 100, 95, 115, 116, 111, 114, 97, 103, 101, 58, 100, 101, 102, 97, 117, 108, 116, 58] [1, 2])"
proof -
  let ?Get = "\<lambda>(m :: bytes \<rightharpoonup> bytes) k. m k"
  let ?Put = "\<lambda>k v (m :: bytes \<rightharpoonup> bytes). m(k \<mapsto> v)"
  let ?c = "Trie [[9] \<mapsto> [8 :: byte]] (\<lambda>_. None) :: (bytes \<rightharpoonup> bytes) Trie"
  let ?t' = "Trie [[58, 99, 104, 105, 108, 100, 95, 115, 116, 111, 114, 97, 103, 101, 58, 100, 101, 102, 97, 117, 108, 116, 58] @ [1, 2] \<mapsto> replicate 32 0]
                [zero_hash \<mapsto> Some ?c]"
  let ?u = "Trie [[1, 2] \<mapsto> replicate 32 0] [zero_hash \<mapsto> Some ?c]"
  have law: "\<And>m k v. ?Get (?Put k v m) k = Some v" by simp
  have rep: "Rep_hash32 zero_hash = replicate 32 0"
    by (simp add: zero_hash_def Abs_hash32_inverse)
  have put: "PutChild (\<lambda>_. Inr zero_hash) ?Put (Trie Map.empty (\<lambda>_. None)) [1, 2] ?c = Inr ?t'"
    by (simp add: PutChild_def Let_def rep ChildStorageKeyPrefix_def)
  from put_child_then_get_child[of ?Get ?Put "\<lambda>_. Inr zero_hash", OF law put]
  obtain h where g: "GetChild ?Get ?t' [1, 2] = Inr (Some ?c)"
    and all: "\<forall>u. GetChild ?Get u [1, 2] =
           (case ?Get (content u) ([58, 99, 104, 105, 108, 100, 95, 115, 116, 111, 114, 97, 103, 101, 58, 100, 101, 102, 97, 117, 108, 116, 58] @ [1, 2]) of
              None \<Rightarrow> Inl (ChildTrieDoesNotExist [58, 99, 104, 105, 108, 100, 95, 115, 116, 111, 114, 97, 103, 101, 58, 100, 101, 102, 97, 117, 108, 116, 58] [1, 2])
            | Some v \<Rightarrow> Inr (case childTries u (copy_to_hash v) of None \<Rightarrow> None | Some p \<Rightarrow> p))"
    by blast
  from all have "GetChild ?Get ?u [1, 2] =
           (case ?Get (content ?u) ([58, 99, 104, 105, 108, 100, 95, 115, 116, 111, 114, 97, 103, 101, 58, 100, 101, 102, 97, 117, 108, 116, 58] @ [1, 2]) of
              None \<Rightarrow> Inl (ChildTrieDoesNotExist [58, 99, 104, 105, 108, 100, 95, 115, 116, 111, 114, 97, 103, 101, 58, 100, 101, 102, 97, 117, 108, 116, 58] [1, 2])
            | Some v \<Rightarrow> Inr (case childTries ?u (copy_to_hash v) of None \<Rightarrow> None | Some p \<Rightarrow> p))" ..
  then have miss: "GetChild ?Get ?u [1, 2] = Inl (ChildTrieDoesNotExist [58, 99, 104, 105, 108, 100, 95, 115, 116, 111, 114, 97, 103, 101, 58, 100, 101, 102, 97, 117, 108, 116, 58] [1, 2])"
    by simp
  from law put g miss show ?thesis by simp
qed

subsection \<open>Storage reads\<close>

lemma least_key_None: "least_key ks = None \<longleftrightarrow> ks = []"
  by (induction ks) (auto split: option.splits)

text \<open>
  C7.  For a stored key with value \<open>v\<close>, the read with an offset fails with
  \<open>OutOfBounds\<close> when the offset is greater than the length of \<open>v\<close>, and only then;
  at an offset up to the length it returns the rest of the value, cut to the buffer.
  The other reads never return an error: a missing key, a missing child storage or a
  missing next key gives \<open>None\<close>.
\<close>

theorem storage_read_out_of_bounds:
  "(map_of (top s) key = Some v \<longrightarrow> offset > length v \<longrightarrow>
       ext_storage_read s key offset n = Inl OutOfBounds)
   \<and> (map_of (top s) key = Some v \<longrightarrow> offset \<le> length v \<longrightarrow>
       ext_storage_read s key offset n = Inr (Some (take n (drop offset v))))
   \<and> (map_of (top s) key = None \<longrightarrow> ext_storage_read s key offset n = Inr None)
   \<and> (ext_storage_read s key offset n = Inl OutOfBounds \<longrightarrow>
       (\<exists>w. map_of (top s) key = Some w \<and> offset > length w))
   \<and> \<not> isl (ext_storage_get s key)
   \<and> (map_of (top s) key = None \<longrightarrow> ext_storage_get s key = Inr None)
   \<and> \<not> isl (ext_storage_next_key s key)
   \<and> ((\<forall>k\<in>set (map fst (top s)). \<not> key_less key k) \<longrightarrow>
       ext_storage_next_key s key = Inr None)
   \<and> \<not> isl (ext_default_child_storage_get s name key)
   \<and> (map_of (child s) name = None \<longrightarrow> ext_default_child_storage_get s name key = Inr None)
   \<and> (\<forall>kv. map_of (child s) name = Some kv \<longrightarrow> map_of kv key = None \<longrightarrow>
       ext_default_child_storage_get s name key = Inr None)"
proof -
  have nk: "(\<forall>k\<in>set (map fst (top s)). \<not> key_less key k) \<longrightarrow>
       ext_storage_next_key s key = Inr None"
  proof
    assume "\<forall>k\<in>set (map fst (top s)). \<not> key_less key k"
    then have "filter (key_less key) (map fst (top s)) = []"
      by (simp add: filter_empty_conv)
    then show "ext_storage_next_key s key = Inr None"
      by (simp add: ext_storage_next_key_def)
  qed
  show ?thesis
    apply (intro conjI)
    subgoal by (simp add: ext_storage_read_def)
    subgoal by (simp add: ext_storage_read_def)
    subgoal by (simp add: ext_storage_read_def)
    subgoal by (auto simp: ext_storage_read_def split: option.splits if_splits)
    subgoal by (simp add: ext_storage_get_def)
    subgoal by (simp add: ext_storage_get_def)
    subgoal by (simp add: ext_storage_next_key_def)
    subgoal by (rule nk)
    subgoal by (simp add: ext_default_child_storage_get_def split: option.splits)
    subgoal by (simp add: ext_default_child_storage_get_def)
    subgoal by (simp add: ext_default_child_storage_get_def)
    done
qed

theorem storage_read_out_of_bounds_witness:
  "map_of (top noot_storage) (ascii ''noot'') = Some (ascii ''washere'')
   \<and> 8 > length (ascii ''washere'')
   \<and> ext_storage_read noot_storage (ascii ''noot'') 8 8 = Inl OutOfBounds
   \<and> 7 \<le> length (ascii ''washere'')
   \<and> ext_storage_read noot_storage (ascii ''noot'') 7 8 = Inr (Some [])
   \<and> ext_storage_read noot_storage (ascii ''noot'') 2 100 = Inr (Some (ascii ''shere''))
   \<and> map_of (top noot_storage) (ascii ''here'') = None
   \<and> ext_storage_get noot_storage (ascii ''here'') = Inr None
   \<and> list_all (\<lambda>k. \<not> key_less (ascii ''noot'') k) (map fst (top noot_storage))
   \<and> ext_storage_next_key noot_storage (ascii ''noot'') = Inr None"
proof -
  have a: "map_of (top noot_storage) (ascii ''noot'') = Some (ascii ''washere'')"
    by (simp add: noot_storage_def)
  have l: "length (ascii ''washere'') = 7" by (simp add: ascii_def)
  have m: "map_of (top noot_storage) (ascii ''here'') = None"
    by (simp add: noot_storage_def ascii_def)
  have nk: "\<forall>k\<in>set (map fst (top noot_storage)). \<not> key_less (ascii ''noot'') k"
    by (simp add: noot_storage_def ascii_def)
  note T1 = storage_read_out_of_bounds[of noot_storage "ascii ''noot''" "ascii ''washere''" 8 8]
  note T2 = storage_read_out_of_bounds[of noot_storage "ascii ''noot''" "ascii ''washere''" 7 8]
  note T3 = storage_read_out_of_bounds[of noot_storage "ascii ''noot''" "ascii ''washere''" 2 100]
  note T4 = storage_read_out_of_bounds[of noot_storage "ascii ''here''" "[]" 0 0]
  have r1: "ext_storage_read noot_storage (ascii ''noot'') 8 8 = Inl OutOfBounds"
    using T1[THEN conjunct1] a l by simp
  have r2: "ext_storage_read noot_storage (ascii ''noot'') 7 8 = Inr (Some [])"
    using T2[THEN conjunct2, THEN conjunct1] a l by simp
  have r3: "ext_storage_read noot_storage (ascii ''noot'') 2 100 = Inr (Some (ascii ''shere''))"
    using T3[THEN conjunct2, THEN conjunct1] a l by (simp add: ascii_def)
  have r4: "ext_storage_get noot_storage (ascii ''here'') = Inr None"
    using T4[THEN conjunct2, THEN conjunct2, THEN conjunct2, THEN conjunct2, THEN conjunct2,
        THEN conjunct1] m by simp
  have r5: "ext_storage_next_key noot_storage (ascii ''noot'') = Inr None"
    using T1[THEN conjunct2, THEN conjunct2, THEN conjunct2, THEN conjunct2, THEN conjunct2,
        THEN conjunct2, THEN conjunct2, THEN conjunct1] nk by simp
  have nk': "list_all (\<lambda>k. \<not> key_less (ascii ''noot'') k) (map fst (top noot_storage))"
    using nk by (simp add: list_all_iff)
  show ?thesis using a l m nk' r1 r2 r3 r4 r5 by (intro conjI) simp_all
qed

subsection \<open>Fork choice\<close>

lemma leaves_nonempty: "leaves t \<noteq> []"
proof (induction t)
  case (Node h n a cs)
  show ?case
  proof (cases cs)
    case Nil
    then show ?thesis by simp
  next
    case (Cons c cs')
    with Node.IH[of c] show ?thesis by simp
  qed
qed

lemma better_irrefl: "\<not> better a a"
  by (simp add: better_def)

lemma better_trans: "better a b \<Longrightarrow> better b c \<Longrightarrow> better a c"
  by (auto simp: better_def)

lemma not_better_trans: "\<not> better a b \<Longrightarrow> \<not> better b c \<Longrightarrow> \<not> better a c"
  by (auto simp: better_def)

lemma best_of_Cons: "best_of b (x # xs) = best_of (if better x b then x else b) xs"
  by (simp add: best_of_def)

lemma best_of_mem: "best_of b xs \<in> set (b # xs)"
proof (induction xs arbitrary: b)
  case Nil
  then show ?case by (simp add: best_of_def)
next
  case (Cons x xs)
  from Cons.IH[of "if better x b then x else b"] show ?case
    by (auto simp: best_of_Cons split: if_splits)
qed

lemma best_of_max: "x \<in> set (b # xs) \<Longrightarrow> \<not> better x (best_of b xs)"
proof (induction xs arbitrary: b x)
  case Nil
  then show ?case by (simp add: best_of_def better_irrefl)
next
  case (Cons y ys)
  let ?b' = "if better y b then y else b"
  have r: "best_of b (y # ys) = best_of ?b' ys" by (rule best_of_Cons)
  have acc: "\<not> better ?b' (best_of ?b' ys)" using Cons.IH[of ?b' ?b'] by simp
  from Cons.prems consider "x = b" | "x = y" | "x \<in> set ys" by auto
  then show ?case
  proof cases
    case 1
    have "\<not> better b ?b'" by (auto simp: better_irrefl dest: better_trans)
    with acc 1 r show ?thesis using not_better_trans by metis
  next
    case 2
    have "\<not> better y ?b'" by (auto simp: better_irrefl)
    with acc 2 r show ?thesis using not_better_trans by metis
  next
    case 3
    with Cons.IH[of x ?b'] r show ?thesis by simp
  qed
qed

lemma best_of_unique:
  assumes "m \<in> set (b # xs)" and "\<forall>x\<in>set (b # xs). x = m \<or> better m x"
  shows "best_of b xs = m"
proof -
  have "best_of b xs \<in> set (b # xs)" by (rule best_of_mem)
  with assms(2) have "best_of b xs = m \<or> better m (best_of b xs)" by blast
  moreover have "\<not> better m (best_of b xs)" using assms(1) by (rule best_of_max)
  ultimately show ?thesis by blast
qed

lemma best_head_leaf: "best_head t \<in> set (leaves t)"
proof (cases "leaves t")
  case Nil
  with leaves_nonempty show ?thesis by blast
next
  case (Cons l ls)
  then show ?thesis using best_of_mem[of l ls] by (simp add: best_head_def)
qed

lemma best_head_max: "l \<in> set (leaves t) \<Longrightarrow> \<not> better l (best_head t)"
proof (cases "leaves t")
  case Nil
  assume "l \<in> set (leaves t)"
  with Nil show ?thesis by simp
next
  case (Cons x xs)
  assume "l \<in> set (leaves t)"
  with Cons show ?thesis using best_of_max[of l x xs] by (simp add: best_head_def)
qed

lemma best_head_unique:
  assumes "m \<in> set (leaves t)" and "\<forall>x\<in>set (leaves t). x = m \<or> better m x"
  shows "best_head t = m"
proof (cases "leaves t")
  case Nil
  with assms(1) show ?thesis by simp
next
  case (Cons x xs)
  with assms show ?thesis using best_of_unique[of m x xs] by (simp add: best_head_def)
qed


lemma first_some_None: "first_some xs = None \<longleftrightarrow> (\<forall>x\<in>set xs. x = None)"
  by (induction xs rule: first_some.induct) auto

lemma first_some_Some: "first_some xs = Some y \<Longrightarrow> Some y \<in> set xs"
  by (induction xs rule: first_some.induct) auto

lemma first_some_append_None:
  "(\<forall>x\<in>set xs. x = None) \<Longrightarrow> first_some (xs @ ys) = first_some ys"
  by (induction xs rule: first_some.induct) auto

lemma subtree_None: "x \<notin> set (hashes t) \<Longrightarrow> subtree x t = None"
proof (induction t)
  case (Node h n a cs)
  then have "\<forall>c\<in>set cs. subtree x c = None" by auto
  with Node.prems show ?case by (auto simp: first_some_None)
qed

lemma subtree_Some: "subtree x t = Some n \<Longrightarrow> nhash n = x \<and> set (hashes n) \<subseteq> set (hashes t)"
proof (induction t)
  case (Node h m a cs)
  show ?case
  proof (cases "h = x")
    case True
    with Node.prems show ?thesis by auto
  next
    case False
    with Node.prems have "first_some (map (subtree x) cs) = Some n" by simp
    then obtain c where c: "c \<in> set cs" "subtree x c = Some n"
      using first_some_Some by fastforce
    from Node.IH[OF c] c(1) show ?thesis by auto
  qed
qed

lemma subtree_hash_iff: "subtree x t \<noteq> None \<longleftrightarrow> x \<in> set (hashes t)"
proof (induction t)
  case (Node h n a cs)
  show ?case
  proof (cases "h = x")
    case True
    then show ?thesis by simp
  next
    case False
    have "first_some (map (subtree x) cs) \<noteq> None \<longleftrightarrow> (\<exists>c\<in>set cs. subtree x c \<noteq> None)"
      by (auto simp: first_some_None)
    with False Node.IH show ?thesis by auto
  qed
qed

lemma leaf_is_leaf: "l \<in> set (leaves t) \<Longrightarrow> children l = [] \<and> nhash l \<in> set (hashes t)"
proof (induction t)
  case (Node h n a cs)
  then show ?case by (cases "cs = []") auto
qed

lemma leaves_add_child_subset:
  assumes "children c = []"
  shows "set (leaves (add_child p c t)) \<subseteq> insert c (set (leaves t))"
proof (induction t)
  case (Node h n a cs)
  show ?case
  proof (cases "h = p")
    case True
    have "leaves c = [c]" using assms by (cases c) simp
    with True show ?thesis by auto
  next
    case False
    with Node.IH show ?thesis by (cases "cs = []") auto
  qed
qed

lemma leaves_add_child_new:
  assumes "children c = []" and "p \<in> set (hashes t)"
  shows "c \<in> set (leaves (add_child p c t))"
  using assms(2)
proof (induction t)
  case (Node h n a cs)
  have lc: "leaves c = [c]" using assms(1) by (cases c) simp
  show ?case
  proof (cases "h = p")
    case True
    with lc show ?thesis by simp
  next
    case False
    with Node.prems obtain d where d: "d \<in> set cs" "p \<in> set (hashes d)" by auto
    from Node.IH[OF d] d(1) False show ?thesis by (cases "cs = []") auto
  qed
qed

lemma leaves_add_child_old:
  assumes "l \<in> set (leaves t)" and "nhash l \<noteq> p"
  shows "l \<in> set (leaves (add_child p c t))"
  using assms(1)
proof (induction t)
  case (Node h n a cs)
  show ?case
  proof (cases "cs = []")
    case True
    with Node.prems assms(2) show ?thesis by auto
  next
    case False
    with Node.prems obtain d where d: "d \<in> set cs" "l \<in> set (leaves d)" by auto
    from Node.IH[OF d] have IH: "l \<in> set (leaves (add_child p c d))" .
    show ?thesis
    proof (cases "h = p")
      case True
      with d show ?thesis by auto
    next
      case hp: False
      with IH d(1) False show ?thesis by auto
    qed
  qed
qed

lemma leaf_subtree:
  assumes "distinct (hashes t)" and "l \<in> set (leaves t)"
  shows "subtree (nhash l) t = Some l"
  using assms
proof (induction t)
  case (Node h n a cs)
  show ?case
  proof (cases "cs = []")
    case True
    with Node.prems show ?thesis by auto
  next
    case False
    with Node.prems(2) obtain d where "d \<in> set cs" "l \<in> set (leaves d)" by auto
    then obtain i where i: "i < length cs" "l \<in> set (leaves (cs ! i))"
      by (metis in_set_conv_nth)
    let ?c = "cs ! i"
    have dc: "distinct (concat (map hashes cs))" and hn: "h \<notin> set (concat (map hashes cs))"
      using Node.prems(1) by auto
    have cin: "?c \<in> set cs" using i(1) by simp
    have dci: "distinct (hashes ?c)" using dc cin by (auto simp: distinct_concat_iff)
    from Node.IH[OF cin dci i(2)] have s: "subtree (nhash l) ?c = Some l" .
    have lh: "nhash l \<in> set (hashes ?c)" using leaf_is_leaf[OF i(2)] by simp
    with hn cin have ne: "h \<noteq> nhash l" by auto
    have split: "cs = take i cs @ ?c # drop (Suc i) cs" using i(1) by (simp add: id_take_nth_drop)
    have before: "\<forall>d\<in>set (take i cs). subtree (nhash l) d = None"
    proof
      fix d assume d: "d \<in> set (take i cs)"
      have "distinct (concat (map hashes (take i cs) @ map hashes (?c # drop (Suc i) cs)))"
        using dc split by (metis map_append)
      then have "set (concat (map hashes (take i cs))) \<inter> set (hashes ?c) = {}"
        by auto
      with d lh have "nhash l \<notin> set (hashes d)" by auto
      then show "subtree (nhash l) d = None" by (rule subtree_None)
    qed
    have "first_some (map (subtree (nhash l)) cs) =
            first_some (map (subtree (nhash l)) (take i cs) @ map (subtree (nhash l)) (?c # drop (Suc i) cs))"
      using split by (metis map_append)
    also have "\<dots> = first_some (map (subtree (nhash l)) (?c # drop (Suc i) cs))"
      using before by (intro first_some_append_None) auto
    also have "\<dots> = Some l" using s by simp
    finally show ?thesis using ne by simp
  qed
qed


lemma better_total: "nhash a \<noteq> nhash b \<Longrightarrow> \<not> better a b \<Longrightarrow> better b a"
  by (auto simp: better_def)

lemma add_block_Inr:
  assumes "add_block t hdr arr = Inr t'"
  shows "\<exists>parent. subtree (hdr_parent hdr) t = Some parent
           \<and> hdr_number hdr = Suc (number parent)
           \<and> t' = add_child (hdr_parent hdr) (Node (hdr_hash hdr) (hdr_number hdr) arr []) t"
  using assms by (auto simp: add_block_def split: option.splits if_splits)

lemma best_head_after_higher_block:
  assumes add: "add_block t hdr arr = Inr t'"
    and higher: "number (best_head t) < hdr_number hdr"
  shows "best_head t' = Node (hdr_hash hdr) (hdr_number hdr) arr []"
proof -
  let ?c = "Node (hdr_hash hdr) (hdr_number hdr) arr []"
  from add_block_Inr[OF add] obtain parent where
    p: "subtree (hdr_parent hdr) t = Some parent"
    and t': "t' = add_child (hdr_parent hdr) ?c t" by blast
  from p have ph: "hdr_parent hdr \<in> set (hashes t)" using subtree_hash_iff[of "hdr_parent hdr" t] by simp
  have cin: "?c \<in> set (leaves t')" unfolding t' by (rule leaves_add_child_new[OF _ ph]) simp
  have "\<forall>x\<in>set (leaves t'). x = ?c \<or> better ?c x"
  proof
    fix x assume "x \<in> set (leaves t')"
    then have "x = ?c \<or> x \<in> set (leaves t)"
      unfolding t' using leaves_add_child_subset[of ?c "hdr_parent hdr" t] by auto
    then show "x = ?c \<or> better ?c x"
    proof
      assume "x \<in> set (leaves t)"
      then have "\<not> better x (best_head t)" by (rule best_head_max)
      then have "number x \<le> number (best_head t)" by (auto simp: better_def)
      with higher show ?thesis by (simp add: better_def)
    qed simp
  qed
  with cin show ?thesis by (rule best_head_unique)
qed

lemma best_head_after_equal_block:
  assumes d: "distinct (hashes t)"
    and add: "add_block t hdr arr = Inr t'"
    and same: "hdr_number hdr = number (best_head t)"
    and later: "arrival (best_head t) < arr"
  shows "best_head t' = best_head t"
proof -
  let ?c = "Node (hdr_hash hdr) (hdr_number hdr) arr []"
  let ?b = "best_head t"
  from add_block_Inr[OF add] obtain parent where
    p: "subtree (hdr_parent hdr) t = Some parent"
    and n: "hdr_number hdr = Suc (number parent)"
    and t': "t' = add_child (hdr_parent hdr) ?c t" by blast
  have bl: "?b \<in> set (leaves t)" by (rule best_head_leaf)
  have bs: "subtree (nhash ?b) t = Some ?b" by (rule leaf_subtree[OF d bl])
  have ne: "nhash ?b \<noteq> hdr_parent hdr"
  proof
    assume "nhash ?b = hdr_parent hdr"
    with bs p have "parent = ?b" by simp
    with n same show False by simp
  qed
  have bin: "?b \<in> set (leaves t')" unfolding t' by (rule leaves_add_child_old[OF bl ne])
  have "\<forall>x\<in>set (leaves t'). x = ?b \<or> better ?b x"
  proof
    fix x assume "x \<in> set (leaves t')"
    then have "x = ?c \<or> x \<in> set (leaves t)"
      unfolding t' using leaves_add_child_subset[of ?c "hdr_parent hdr" t] by auto
    then show "x = ?b \<or> better ?b x"
    proof
      assume "x = ?c"
      with same later show ?thesis by (simp add: better_def)
    next
      assume xl: "x \<in> set (leaves t)"
      show ?thesis
      proof (cases "nhash x = nhash ?b")
        case True
        from leaf_subtree[OF d xl] True bs show ?thesis by simp
      next
        case False
        with best_head_max[OF xl] show ?thesis using better_total by blast
      qed
    qed
  qed
  with bin show ?thesis by (rule best_head_unique)
qed

text \<open>
  C2.  The best head is a leaf, and no leaf has a greater key (number, then earlier
  arrival, then hash); any leaf with another hash has a strictly smaller key.  Adding a
  block whose number is greater than that of the best head makes the new block the best
  head; adding a block with the number of the best head that arrives later leaves the
  best head as it is.
\<close>

theorem best_head_fork_choice:
  fixes t :: "('h::linorder) node"
  shows "best_head t \<in> set (leaves t)
   \<and> (\<forall>l\<in>set (leaves t). \<not> better l (best_head t))
   \<and> (\<forall>l\<in>set (leaves t). nhash l \<noteq> nhash (best_head t) \<longrightarrow> better (best_head t) l)
   \<and> (\<forall>t'. add_block t hdr arr = Inr t' \<longrightarrow> number (best_head t) < hdr_number hdr \<longrightarrow>
          best_head t' = Node (hdr_hash hdr) (hdr_number hdr) arr [])
   \<and> (\<forall>t'. distinct (hashes t) \<longrightarrow> add_block t hdr arr = Inr t' \<longrightarrow>
          hdr_number hdr = number (best_head t) \<longrightarrow> arrival (best_head t) < arr \<longrightarrow>
          best_head t' = best_head t)"
proof (intro conjI ballI allI impI)
  show "best_head t \<in> set (leaves t)" by (rule best_head_leaf)
next
  fix l assume "l \<in> set (leaves t)"
  then show "\<not> better l (best_head t)" by (rule best_head_max)
next
  fix l assume "l \<in> set (leaves t)" "nhash l \<noteq> nhash (best_head t)"
  then show "better (best_head t) l" using best_head_max better_total by blast
next
  fix t' assume "add_block t hdr arr = Inr t'" "number (best_head t) < hdr_number hdr"
  then show "best_head t' = Node (hdr_hash hdr) (hdr_number hdr) arr []"
    by (rule best_head_after_higher_block)
next
  fix t' assume "distinct (hashes t)" "add_block t hdr arr = Inr t'"
    "hdr_number hdr = number (best_head t)" "arrival (best_head t) < arr"
  then show "best_head t' = best_head t" by (rule best_head_after_equal_block)
qed


theorem best_head_fork_choice_witness:
  "distinct (hashes (Node (0::nat) 0 0 [Node 10 1 1 []]))
   \<and> add_block (Node (0::nat) 0 0 [Node 10 1 1 []])
         \<lparr>hdr_hash = 11, hdr_parent = 0, hdr_number = 1\<rparr> 2
       = Inr (Node 0 0 0 [Node 10 1 1 [], Node 11 1 2 []])
   \<and> best_head (Node (0::nat) 0 0 [Node 10 1 1 []]) = Node 10 1 1 []
   \<and> best_head (Node (0::nat) 0 0 [Node 10 1 1 [], Node 11 1 2 []]) = Node 10 1 1 []
   \<and> add_block (Node (0::nat) 0 0 [Node 10 1 1 [], Node 11 1 2 []])
         \<lparr>hdr_hash = 21, hdr_parent = 11, hdr_number = 2\<rparr> 3
       = Inr (Node 0 0 0 [Node 10 1 1 [], Node 11 1 2 [Node 21 2 3 []]])
   \<and> best_head (Node (0::nat) 0 0 [Node 10 1 1 [], Node 11 1 2 [Node 21 2 3 []]]) = Node 21 2 3 []"
proof -
  let ?t1 = "Node (0::nat) 0 0 [Node 10 1 1 []]"
  let ?t2 = "Node (0::nat) 0 0 [Node 10 1 1 [], Node 11 1 2 []]"
  let ?t3 = "Node (0::nat) 0 0 [Node 10 1 1 [], Node 11 1 2 [Node 21 2 3 []]]"
  let ?h1 = "\<lparr>hdr_hash = 11::nat, hdr_parent = 0, hdr_number = 1\<rparr>"
  let ?h2 = "\<lparr>hdr_hash = 21::nat, hdr_parent = 11, hdr_number = 2\<rparr>"
  have d: "distinct (hashes ?t1)" by simp
  have b1: "best_head ?t1 = Node 10 1 1 []" by (simp add: best_head_def best_of_def)
  have a1: "add_block ?t1 ?h1 2 = Inr ?t2" by (simp add: add_block_def)
  have a2: "add_block ?t2 ?h2 3 = Inr ?t3" by (simp add: add_block_def)
  have n1: "hdr_number ?h1 = number (best_head ?t1)" unfolding b1 by simp
  have l1: "arrival (best_head ?t1) < 2" unfolding b1 by simp
  note T1 = best_head_fork_choice[of ?t1 ?h1 2]
  from T1[THEN conjunct2, THEN conjunct2, THEN conjunct2, THEN conjunct2, rule_format,
      OF d a1 n1 l1]
  have b2: "best_head ?t2 = Node 10 1 1 []" unfolding b1 .
  have n2: "number (best_head ?t2) < hdr_number ?h2" unfolding b2 by simp
  note T2 = best_head_fork_choice[of ?t2 ?h2 3]
  from T2[THEN conjunct2, THEN conjunct2, THEN conjunct2, THEN conjunct1, rule_format, OF a2 n2]
  have b3: "best_head ?t3 = Node 21 2 3 []" by simp
  from d a1 b1 b2 a2 b3 show ?thesis by (intro conjI)
qed

subsection \<open>Finalisation\<close>

lemma children_disjoint:
  "distinct (concat (map hashes cs)) \<Longrightarrow> c \<in> set cs \<Longrightarrow> c' \<in> set cs \<Longrightarrow>
     b \<in> set (hashes c) \<Longrightarrow> b \<in> set (hashes c') \<Longrightarrow> c = c'"
  by (induction cs) auto

lemma child_distinct:
  "distinct (concat (map hashes cs)) \<Longrightarrow> c \<in> set cs \<Longrightarrow> distinct (hashes c)"
  by (induction cs) auto

lemma first_some_only:
  "c \<in> set cs \<Longrightarrow> f c = Some m \<Longrightarrow> (\<forall>c'\<in>set cs. c' \<noteq> c \<longrightarrow> f c' = None) \<Longrightarrow>
     first_some (map f cs) = Some m"
proof (induction cs)
  case Nil
  then show ?case by simp
next
  case (Cons d ds)
  show ?case
  proof (cases "d = c")
    case True
    with Cons.prems show ?thesis by simp
  next
    case False
    with Cons.prems have "f d = None" "c \<in> set ds" by auto
    with Cons show ?thesis by simp
  qed
qed

lemma subtree_child:
  assumes d: "distinct (hashes (Node x n a cs))" and c: "c \<in> set cs" and b: "b \<in> set (hashes c)"
  shows "subtree b (Node x n a cs) = subtree b c"
proof -
  from d have dc: "distinct (concat (map hashes cs))" and xn: "x \<notin> set (concat (map hashes cs))"
    by auto
  from xn c b have ne: "x \<noteq> b" by auto
  from b obtain m where m: "subtree b c = Some m" using subtree_hash_iff[of b c] by auto
  have "\<forall>c'\<in>set cs. c' \<noteq> c \<longrightarrow> subtree b c' = None"
  proof (intro ballI impI)
    fix c' assume "c' \<in> set cs" "c' \<noteq> c"
    with children_disjoint[OF dc c _ b] have "b \<notin> set (hashes c')" by blast
    then show "subtree b c' = None" by (rule subtree_None)
  qed
  from first_some_only[OF c m this] ne m show ?thesis by simp
qed

lemma prune_node_all: "h \<notin> set (hashes t) \<Longrightarrow> prune_node h t = hashes t"
proof (induction t)
  case (Node x n a cs)
  then have "map (prune_node h) cs = map hashes cs" by auto
  then have "concat (map (prune_node h) cs) = concat (map hashes cs)" by (rule arg_cong)
  with Node.prems show ?case by auto
qed

lemma prune_node_subset: "set (prune_node h t) \<subseteq> set (hashes t)"
proof (induction t)
  case (Node x n a cs)
  then show ?case by auto
qed

lemma is_descendant_of_root: "is_descendant_of t (nhash t) b \<longleftrightarrow> b \<in> set (hashes t)"
  by (cases t) (simp add: is_descendant_of_def)

lemma is_descendant_of_child:
  assumes "distinct (hashes (Node x n a cs))" and "c \<in> set cs" and "u \<in> set (hashes c)"
  shows "is_descendant_of (Node x n a cs) u v \<longleftrightarrow> is_descendant_of c u v"
  using subtree_child[OF assms] by (simp add: is_descendant_of_def)

lemma is_descendant_of_inside:
  "is_descendant_of t u v \<Longrightarrow> u \<in> set (hashes t) \<and> v \<in> set (hashes t)"
proof -
  assume "is_descendant_of t u v"
  then obtain m where m: "subtree u t = Some m" "v \<in> set (hashes m)"
    by (auto simp: is_descendant_of_def split: option.splits)
  from subtree_Some[OF m(1)] m(2) subtree_hash_iff[of u t] m(1) show ?thesis by auto
qed

lemma prune_node_iff:
  assumes "distinct (hashes t)" and "h \<in> set (hashes t)"
  shows "b \<in> set (prune_node h t) \<longleftrightarrow>
           b \<in> set (hashes t) \<and> \<not> is_descendant_of t b h \<and> \<not> is_descendant_of t h b"
  using assms
proof (induction t)
  case (Node x n a cs)
  let ?t = "Node x n a cs"
  show ?case
  proof (cases "x = h")
    case True
    then have "is_descendant_of ?t h b \<longleftrightarrow> b \<in> set (hashes ?t)"
      by (simp add: is_descendant_of_def)
    with True show ?thesis by auto
  next
    case False
    from Node.prems have dc: "distinct (concat (map hashes cs))"
      and xn: "x \<notin> set (concat (map hashes cs))" by auto
    from False Node.prems(2) obtain c0 where c0: "c0 \<in> set cs" "h \<in> set (hashes c0)" by auto
    have pr: "prune_node h ?t = concat (map (prune_node h) cs)" using False c0 by auto
    have dc0: "distinct (hashes c0)" by (rule child_distinct[OF dc c0(1)])
    note IH = Node.IH[OF c0(1) dc0 c0(2)]
    have other: "\<And>c. c \<in> set cs \<Longrightarrow> c \<noteq> c0 \<Longrightarrow> prune_node h c = hashes c"
    proof -
      fix c assume "c \<in> set cs" "c \<noteq> c0"
      with children_disjoint[OF dc c0(1) _ c0(2)] have "h \<notin> set (hashes c)" by blast
      then show "prune_node h c = hashes c" by (rule prune_node_all)
    qed
    have hx: "is_descendant_of ?t x h" using Node.prems(2) by (simp add: is_descendant_of_def)
    show ?thesis
    proof (cases "b = x")
      case True
      have "x \<notin> set (prune_node h ?t)"
        unfolding pr using xn prune_node_subset by fastforce
      with True hx show ?thesis by simp
    next
      case bx: False
      show ?thesis
      proof (cases "b \<in> set (hashes c0)")
        case True
        have "b \<in> set (prune_node h ?t) \<longleftrightarrow> b \<in> set (prune_node h c0)"
        proof
          assume "b \<in> set (prune_node h ?t)"
          then obtain c where c: "c \<in> set cs" "b \<in> set (prune_node h c)" unfolding pr by auto
          then have "b \<in> set (hashes c)" using prune_node_subset[of h c] by auto
          with children_disjoint[OF dc c0(1) c(1) True] have "c = c0" by simp
          with c show "b \<in> set (prune_node h c0)" by simp
        next
          assume "b \<in> set (prune_node h c0)"
          with c0(1) show "b \<in> set (prune_node h ?t)" unfolding pr by auto
        qed
        moreover have "is_descendant_of ?t b h \<longleftrightarrow> is_descendant_of c0 b h"
          by (rule is_descendant_of_child[OF Node.prems(1) c0(1) True])
        moreover have "is_descendant_of ?t h b \<longleftrightarrow> is_descendant_of c0 h b"
          by (rule is_descendant_of_child[OF Node.prems(1) c0])
        moreover have "b \<in> set (hashes ?t)" using True c0(1) by auto
        ultimately show ?thesis using IH True by simp
      next
        case nb: False
        show ?thesis
        proof (cases "b \<in> set (hashes ?t)")
          case False
          from prune_node_subset[of h ?t] False have "b \<notin> set (prune_node h ?t)"
            by (rule contra_subsetD)
          with False show ?thesis by blast
        next
          case True
          with bx obtain c where c: "c \<in> set cs" "b \<in> set (hashes c)" by auto
          with nb have cne: "c \<noteq> c0" by auto
          from other[OF c(1) cne] c(2) have "b \<in> set (prune_node h c)" by simp
          with c(1) have "b \<in> set (prune_node h ?t)" unfolding pr by auto
          moreover have "\<not> is_descendant_of ?t b h"
          proof
            assume "is_descendant_of ?t b h"
            then have "is_descendant_of c b h"
              using is_descendant_of_child[OF Node.prems(1) c] by simp
            then have "h \<in> set (hashes c)" by (rule is_descendant_of_inside[THEN conjunct2])
            with children_disjoint[OF dc c0(1) c(1) c0(2)] cne show False by simp
          qed
          moreover have "\<not> is_descendant_of ?t h b"
          proof
            assume "is_descendant_of ?t h b"
            then have "is_descendant_of c0 h b"
              using is_descendant_of_child[OF Node.prems(1) c0] by simp
            then have "b \<in> set (hashes c0)" by (rule is_descendant_of_inside[THEN conjunct2])
            with nb show False by simp
          qed
          ultimately show ?thesis using True by simp
        qed
      qed
    qed
  qed
qed


text \<open>
  C3.  For a tree whose blocks have distinct hashes and a hash \<open>h\<close> that descends from
  the finalised root, \<^verbatim>\<open>SetFinalizedHash\<close> succeeds, makes the node of \<open>h\<close> the new root
  and records \<open>h\<close> for the round and set; every block of the old tree that is not
  \<open>h\<close>, not above \<open>h\<close> on the path from the old root and not below \<open>h\<close> has lost
  its header and its body; for \<open>h\<close>, the blocks on the path to it and the blocks below
  it the stored header and body are what they were.
\<close>

theorem finalisation_prunes_other_branches:
  assumes d: "distinct (hashes (bt bs))"
    and desc: "is_descendant_of (bt bs) (nhash (bt bs)) h"
  shows "\<exists>bs' n. SetFinalizedHash bs h r s = Inr bs'
     \<and> subtree h (bt bs) = Some n \<and> bt bs' = n \<and> finalised_hash bs' (r, s) = Some h
     \<and> (\<forall>b\<in>set (hashes (bt bs)).
           b \<noteq> h \<longrightarrow> \<not> is_descendant_of (bt bs) b h \<longrightarrow> \<not> is_descendant_of (bt bs) h b \<longrightarrow>
           headers bs' b = None \<and> bodies bs' b = None)
     \<and> (\<forall>b. b = h \<or> is_descendant_of (bt bs) b h \<or> is_descendant_of (bt bs) h b \<longrightarrow>
           headers bs' b = headers bs b \<and> bodies bs' b = bodies bs b)"
proof -
  let ?t = "bt bs"
  from desc have hin: "h \<in> set (hashes ?t)" by (simp add: is_descendant_of_root)
  then obtain n where n: "subtree h ?t = Some n" using subtree_hash_iff[of h ?t] by auto
  let ?pruned = "prune_node h ?t"
  let ?bs' = "bs\<lparr>bt := n,
                headers := (\<lambda>b. if b \<in> set ?pruned then None else headers bs b),
                bodies := (\<lambda>b. if b \<in> set ?pruned then None else bodies bs b),
                finalised_hash := (finalised_hash bs)((r, s) \<mapsto> h)\<rparr>"
  have run: "SetFinalizedHash bs h r s = Inr ?bs'"
    by (simp add: SetFinalizedHash_def n Let_def)
  note iff = prune_node_iff[OF d hin]
  have hh: "is_descendant_of ?t h h"
    using n subtree_Some[OF n] by (cases n) (auto simp: is_descendant_of_def)
  have gone: "\<forall>b\<in>set (hashes ?t).
           b \<noteq> h \<longrightarrow> \<not> is_descendant_of ?t b h \<longrightarrow> \<not> is_descendant_of ?t h b \<longrightarrow>
           headers ?bs' b = None \<and> bodies ?bs' b = None"
    using iff by simp
  have kept: "\<forall>b. b = h \<or> is_descendant_of ?t b h \<or> is_descendant_of ?t h b \<longrightarrow>
           headers ?bs' b = headers bs b \<and> bodies ?bs' b = bodies bs b"
  proof (intro allI impI)
    fix b assume "b = h \<or> is_descendant_of ?t b h \<or> is_descendant_of ?t h b"
    with hh have "is_descendant_of ?t b h \<or> is_descendant_of ?t h b" by auto
    with iff[of b] have "b \<notin> set ?pruned" by blast
    then show "headers ?bs' b = headers bs b \<and> bodies ?bs' b = bodies bs b" by simp
  qed
  have f: "finalised_hash ?bs' (r, s) = Some h" by simp
  have b: "bt ?bs' = n" by simp
  show ?thesis
    apply (rule exI[of _ ?bs'], rule exI[of _ n])
    apply (intro conjI)
    apply (rule run)
    apply (rule n)
    apply (rule b)
    apply (rule f)
    apply (rule gone)
    apply (rule kept)
    done
qed

theorem finalisation_prunes_other_branches_witness:
  "distinct (hashes (bt fork_store))
   \<and> is_descendant_of (bt fork_store) (nhash (bt fork_store)) 1
   \<and> (\<exists>bs'. SetFinalizedHash fork_store 1 1 1 = Inr bs'
        \<and> bt bs' = Node 1 1 1 [Node 2 2 2 []]
        \<and> headers bs' 11 = None \<and> headers bs' 12 = None \<and> headers bs' 13 = None
        \<and> bodies bs' 11 = None \<and> bodies bs' 12 = None \<and> bodies bs' 13 = None
        \<and> headers bs' 0 = Some 0 \<and> headers bs' 1 = Some 1 \<and> headers bs' 2 = Some 2)"
proof -
  have d: "distinct (hashes (bt fork_store))"
    by (simp add: fork_store_def fork_tree_def)
  have desc: "is_descendant_of (bt fork_store) (nhash (bt fork_store)) 1"
    by (simp add: fork_store_def fork_tree_def is_descendant_of_def)
  have sub: "subtree 1 (bt fork_store) = Some (Node 1 1 1 [Node 2 2 2 []])"
    by (simp add: fork_store_def fork_tree_def)
  have rel: "\<not> is_descendant_of (bt fork_store) 11 1" "\<not> is_descendant_of (bt fork_store) 1 11"
    "\<not> is_descendant_of (bt fork_store) 12 1" "\<not> is_descendant_of (bt fork_store) 1 12"
    "\<not> is_descendant_of (bt fork_store) 13 1" "\<not> is_descendant_of (bt fork_store) 1 13"
    "is_descendant_of (bt fork_store) 0 1" "is_descendant_of (bt fork_store) 1 2"
    by (simp_all add: fork_store_def fork_tree_def is_descendant_of_def)
  have mem: "11 \<in> set (hashes (bt fork_store))" "12 \<in> set (hashes (bt fork_store))"
    "13 \<in> set (hashes (bt fork_store))"
    by (simp_all add: fork_store_def fork_tree_def)
  have old: "headers fork_store 0 = Some 0" "headers fork_store 1 = Some 1"
    "headers fork_store 2 = Some 2"
    by (simp_all add: fork_store_def fork_tree_def)
  from finalisation_prunes_other_branches[OF d desc, of 1 1] obtain bs' n where
    run: "SetFinalizedHash fork_store 1 1 1 = Inr bs'"
    and n: "subtree 1 (bt fork_store) = Some n" "bt bs' = n"
    and gone: "\<forall>b\<in>set (hashes (bt fork_store)).
           b \<noteq> 1 \<longrightarrow> \<not> is_descendant_of (bt fork_store) b 1 \<longrightarrow>
           \<not> is_descendant_of (bt fork_store) 1 b \<longrightarrow>
           headers bs' b = None \<and> bodies bs' b = None"
    and kept: "\<forall>b. b = 1 \<or> is_descendant_of (bt fork_store) b 1
                  \<or> is_descendant_of (bt fork_store) 1 b \<longrightarrow>
           headers bs' b = headers fork_store b \<and> bodies bs' b = bodies fork_store b"
    by blast
  from n sub have t: "bt bs' = Node 1 1 1 [Node 2 2 2 []]" by simp
  from gone mem rel have g: "headers bs' 11 = None" "headers bs' 12 = None" "headers bs' 13 = None"
    "bodies bs' 11 = None" "bodies bs' 12 = None" "bodies bs' 13 = None" by auto
  from kept rel old have k: "headers bs' 0 = Some 0" "headers bs' 1 = Some 1" "headers bs' 2 = Some 2"
    by auto
  from d desc run t g k show ?thesis by blast
qed

subsection \<open>The merkle trie\<close>




lemma present_simps [simp]:
  "present Empty = False" "present (Leaf k v) = True" "present (Branch pk cs vo) = True"
  by (simp_all add: present_def)









































end
